theory Spec2Isabelle
  imports Main
begin

section \<open>Callback registry\<close>

text \<open>
  \<^verbatim>\<open>_registerCallback(callbacks, newCallback)\<close> pushes the callback onto the list and
  returns a closure. A closure is compared by reference (\<^verbatim>\<open>===\<close>); in the model a callback
  is a value that carries its identity, so reference equality is equality of values.
\<close>

definition registerCallback :: "'a list \<Rightarrow> 'a \<Rightarrow> 'a list" where
  "registerCallback callbacks newCallback = callbacks @ [newCallback]"

text \<open>
  The returned closure runs
  \<^verbatim>\<open>for (const [index, callback] of callbacks.entries())
     if (callback === newCallback) callbacks.splice(index, 1)\<close>.
  The array iterator is live: it keeps an index, compares it with the current length before
  every step, and advances by one after every step, also after a splice.
\<close>

function unregisterFrom :: "nat \<Rightarrow> 'a \<Rightarrow> 'a list \<Rightarrow> 'a list" where
  "unregisterFrom index newCallback callbacks =
     (if index < length callbacks then
        (if callbacks ! index = newCallback
         then unregisterFrom (index + 1) newCallback
                (take index callbacks @ drop (index + 1) callbacks)
         else unregisterFrom (index + 1) newCallback callbacks)
      else callbacks)"
  by pat_completeness auto
termination
  by (relation "measure (\<lambda>(index, newCallback, callbacks). length callbacks - index)") auto

declare unregisterFrom.simps [simp del]

definition unregisterCallback :: "'a \<Rightarrow> 'a list \<Rightarrow> 'a list" where
  "unregisterCallback newCallback callbacks = unregisterFrom 0 newCallback callbacks"


text \<open>The same loop, read off the list: after a removal the next entry is stepped over.\<close>

fun sweep :: "'a \<Rightarrow> 'a list \<Rightarrow> 'a list" where
  "sweep c [] = []"
| "sweep c [x] = (if x = c then [] else [x])"
| "sweep c (x # y # ys) = (if x = c then y # sweep c ys else x # sweep c (y # ys))"

section \<open>Data model of the client\<close>

datatype ready_state = CONNECTING | OPEN | CLOSING | CLOSED

record web_socket =
  readyState :: ready_state
  sent :: "string list"

text \<open>
  Where \<^verbatim>\<open>_createSocket\<close> finds the \<^verbatim>\<open>WebSocket\<close> class: built into the runtime,
  in the \<^verbatim>\<open>ws\<close> module, or nowhere.
\<close>

datatype environment = BuiltinWebSocket | WsModule | NoWebSocket

text \<open>
  A payload object is a list of properties. \<^verbatim>\<open>ServerMessage\<close> is the envelope; every field
  may be missing. \<^verbatim>\<open>JSON.parse\<close> is the runtime's: an inbound payload is given by what it
  makes of the text, a syntax error, the value \<^verbatim>\<open>null\<close>, or an object.
\<close>

type_synonym wm_data = "(string \<times> string) list"

record server_message =
  messageType :: "string option"
  clientMessage :: "string option"
  data :: "wm_data option"
  error :: "string option"

datatype inbound = SyntaxError | JsonNull | Envelope server_message

datatype 'a promise = Pending | Fulfilled 'a | Rejected string

text \<open>
  The closures that the client registers, each with the identity of the call that created
  it, next to the callbacks of the application, which are opaque and carry an identity
  chosen by the application (the same function may be registered more than once).
\<close>

datatype message_callback =
    ReplyListener nat string
  | SubscribeListener nat "string list"
  | UserMessageCallback nat

datatype connect_callback = ConnectWaiter nat | UserConnectCallback nat

text \<open>
  An \<^verbatim>\<open>async\<close> function runs to its next \<^verbatim>\<open>await\<close> and is resumed later. A call is
  recorded with the point where it is suspended.
\<close>

datatype connect_task =
    AwaitSocketPromise nat
  | AwaitOpen
  | OpenNotified
  | ConnectResolved
  | ConnectRejected string

datatype send_phase = AwaitConnect nat | Listening | Finalized | ExecutorFailed string

record send_call =
  message :: string
  phase :: send_phase
  inner :: "wm_data option promise"

datatype subscribe_task =
    AwaitSubscribeReply nat
  | SubscribeActive "wm_data option"
  | SubscribeRejected string

record client =
  environment :: environment
  sockets :: "web_socket list"
  createSocketCalls :: "nat promise list"
  socket_field :: "nat option"
  createSocketPromise :: "nat option"
  onMessageCallbacks :: "message_callback list"
  onConnectCallbacks :: "connect_callback list"
  onDisconnectCallbacks :: "nat list"
  onErrorCallbacks :: "nat list"
  nextId :: nat
  connects :: "nat \<Rightarrow> connect_task option"
  sends :: "nat \<Rightarrow> send_call option"
  subscriptions :: "nat \<Rightarrow> (string list \<times> subscribe_task) option"
  invokedLog :: "message_callback list"
  handlerLog :: "(nat \<times> wm_data option) list"
  uncaught :: "string list"

text \<open>
  \<open>sockets\<close> holds every object made by \<^verbatim>\<open>new WebSocketApi\<close> and \<open>createSocketCalls\<close>
  the promise of every invocation of \<^verbatim>\<open>_createSocket\<close>; the fields \<^verbatim>\<open>_socket\<close> and
  \<^verbatim>\<open>_createSocketPromise\<close> hold references into them. \<open>invokedLog\<close> records each message
  callback as it is called, \<open>handlerLog\<close> each call of a subscription handler with its
  argument, \<open>uncaught\<close> the exceptions that leave an event handler or an executor.
\<close>

definition init :: "environment \<Rightarrow> client" where
  "init env =
     \<lparr>environment = env, sockets = [], createSocketCalls = [], socket_field = None,
      createSocketPromise = None, onMessageCallbacks = [], onConnectCallbacks = [],
      onDisconnectCallbacks = [], onErrorCallbacks = [], nextId = 0,
      connects = Map.empty, sends = Map.empty, subscriptions = Map.empty,
      invokedLog = [], handlerLog = [], uncaught = []\<rparr>"

section \<open>Connection manager\<close>

text \<open>\<^verbatim>\<open>_createSocket\<close> up to its \<^verbatim>\<open>await\<close>: a new pending promise.\<close>

definition createSocket_start :: "client \<Rightarrow> nat \<times> client" where
  "createSocket_start st =
     (length (createSocketCalls st),
      st\<lparr>createSocketCalls := createSocketCalls st @ [Pending]\<rparr>)"

text \<open>
  The rest of \<^verbatim>\<open>_createSocket\<close>: the import failed, or the socket is constructed, its four
  handlers are installed and the promise is fulfilled with it.
\<close>

definition wsRequired :: string where
  "wsRequired =
     ''The dependency '' @ [CHR 0x27] @ ''ws'' @ [CHR 0x27] @
     '' is required for environments without a built-in WebSocket API. '' @ [CHR 0x0A] @
     ''Run `npm i ws` to resolve this error.''"

definition createSocket_resume :: "nat \<Rightarrow> client \<Rightarrow> client" where
  "createSocket_resume p st =
     (if p < length (createSocketCalls st) \<and> createSocketCalls st ! p = Pending then
        (if environment st = NoWebSocket then
           st\<lparr>createSocketCalls := (createSocketCalls st)[p := Rejected wsRequired]\<rparr>
         else
           st\<lparr>sockets := sockets st @ [\<lparr>readyState = CONNECTING, sent = []\<rparr>],
              createSocketCalls := (createSocketCalls st)[p := Fulfilled (length (sockets st))]\<rparr>)
      else st)"

definition socketIsOpen :: "client \<Rightarrow> bool" where
  "socketIsOpen st =
     (case socket_field st of
        None \<Rightarrow> False
      | Some a \<Rightarrow> a < length (sockets st) \<and> readyState (sockets st ! a) = OPEN)"

text \<open>
  \<^verbatim>\<open>_waitForConnection\<close>, called by connect task \<open>k\<close>: returns at once when the socket is
  open, else registers a connect callback that resolves the wait.
\<close>

definition waitForConnection :: "nat \<Rightarrow> client \<Rightarrow> client" where
  "waitForConnection k st =
     (if socketIsOpen st then st\<lparr>connects := (connects st)(k \<mapsto> ConnectResolved)\<rparr>
      else st\<lparr>onConnectCallbacks := registerCallback (onConnectCallbacks st) (ConnectWaiter k),
              connects := (connects st)(k \<mapsto> AwaitOpen)\<rparr>)"

text \<open>\<^verbatim>\<open>connect()\<close> up to its first \<^verbatim>\<open>await\<close>.\<close>

definition connect_start :: "nat \<Rightarrow> client \<Rightarrow> client" where
  "connect_start k st =
     (case socket_field st of
        None \<Rightarrow>
          (case createSocketPromise st of
             Some p \<Rightarrow> st\<lparr>connects := (connects st)(k \<mapsto> AwaitSocketPromise p)\<rparr>
           | None \<Rightarrow>
               (case createSocket_start st of
                  (p, st') \<Rightarrow> st'\<lparr>createSocketPromise := Some p,
                                  connects := (connects st')(k \<mapsto> AwaitSocketPromise p)\<rparr>))
      | Some a \<Rightarrow> waitForConnection k st)"

text \<open>
  The continuation of \<^verbatim>\<open>connect()\<close>: after \<^verbatim>\<open>await socketPromise\<close> the field is assigned
  and the wait begins; after the wait was resolved by the open event, its \<^verbatim>\<open>finally\<close>
  unregisters the connect callback and \<^verbatim>\<open>connect()\<close> returns.
\<close>

definition connect_resume :: "nat \<Rightarrow> client \<Rightarrow> client" where
  "connect_resume k st =
     (case connects st k of
        Some (AwaitSocketPromise p) \<Rightarrow>
          (if p < length (createSocketCalls st) then
             (case createSocketCalls st ! p of
                Pending \<Rightarrow> st
              | Rejected e \<Rightarrow> st\<lparr>connects := (connects st)(k \<mapsto> ConnectRejected e)\<rparr>
              | Fulfilled a \<Rightarrow> waitForConnection k (st\<lparr>socket_field := Some a\<rparr>))
           else st)
      | Some OpenNotified \<Rightarrow>
          st\<lparr>onConnectCallbacks := unregisterCallback (ConnectWaiter k) (onConnectCallbacks st),
             connects := (connects st)(k \<mapsto> ConnectResolved)\<rparr>
      | _ \<Rightarrow> st)"

definition closeSocket :: "web_socket \<Rightarrow> web_socket" where
  "closeSocket s = (if readyState s = CLOSED then s else s\<lparr>readyState := CLOSING\<rparr>)"

definition closeConnection :: "client \<Rightarrow> client" where
  "closeConnection st =
     (case socket_field st of
        None \<Rightarrow> st
      | Some a \<Rightarrow>
          (if a < length (sockets st)
           then st\<lparr>sockets := (sockets st)[a := closeSocket (sockets st ! a)]\<rparr> else st))"


section \<open>Request correlator\<close>

definition isReplyMessage :: "server_message \<Rightarrow> string \<Rightarrow> bool" where
  "isReplyMessage serverMessage msg \<longleftrightarrow>
     messageType serverMessage = Some ''client_response'' \<and> clientMessage serverMessage = Some msg"

text \<open>A string is truthy when it is present and not empty.\<close>

definition truthy :: "string option \<Rightarrow> bool" where
  "truthy v = (case v of None \<Rightarrow> False | Some t \<Rightarrow> t \<noteq> [])"

definition errorReason :: "string \<Rightarrow> string \<Rightarrow> string" where
  "errorReason msg e =
     ''Server reply to message '' @ [CHR 0x27] @ msg @ [CHR 0x27] @ '' has error: '' @ e"

text \<open>\<^verbatim>\<open>resolve\<close> and \<^verbatim>\<open>reject\<close> of the promise of call \<open>c\<close>: only the first one settles it.\<close>

definition settle :: "nat \<Rightarrow> wm_data option promise \<Rightarrow> client \<Rightarrow> client" where
  "settle c outcome st =
     (case sends st c of
        Some call \<Rightarrow>
          (if inner call = Pending
           then st\<lparr>sends := (sends st)(c \<mapsto> call\<lparr>inner := outcome\<rparr>)\<rparr> else st)
      | None \<Rightarrow> st)"

text \<open>The body of the transient listener of call \<open>c\<close>, after the payload was parsed.\<close>

definition replyListener :: "nat \<Rightarrow> string \<Rightarrow> server_message \<Rightarrow> client \<Rightarrow> client" where
  "replyListener c msg serverMessage st =
     (let st1 = (if isReplyMessage serverMessage msg \<and> truthy (error serverMessage)
                 then settle c (Rejected (errorReason msg (case error serverMessage of
                                                            Some e \<Rightarrow> e | None \<Rightarrow> []))) st
                 else st)
      in if isReplyMessage serverMessage msg then settle c (Fulfilled (data serverMessage)) st1
         else st1)"

text \<open>
  \<^verbatim>\<open>sendAndWaitReply(message)\<close> up to the \<^verbatim>\<open>await this.connect()\<close> of its executor. The
  call is \<open>c\<close>, its connect task \<open>c + 1\<close>.
\<close>

definition sendAndWaitReply_start :: "string \<Rightarrow> client \<Rightarrow> nat \<times> client" where
  "sendAndWaitReply_start msg st =
     (let c = nextId st;
          st1 = connect_start (c + 1) (st\<lparr>nextId := c + 2\<rparr>)
      in (c, st1\<lparr>sends := (sends st1)(c \<mapsto> \<lparr>message = msg, phase = AwaitConnect (c + 1),
                                               inner = Pending\<rparr>)\<rparr>))"

definition socketSend :: "string \<Rightarrow> web_socket \<Rightarrow> web_socket" where
  "socketSend msg s = s\<lparr>sent := sent s @ [msg]\<rparr>"

text \<open>
  The continuations of the call. After \<^verbatim>\<open>connect()\<close> the request is sent and the listener
  registered; a rejected \<^verbatim>\<open>connect()\<close> ends the executor, an \<^verbatim>\<open>async\<close> function whose
  promise nobody holds, and neither \<^verbatim>\<open>resolve\<close> nor \<^verbatim>\<open>reject\<close> is ever called. After the
  promise was settled, \<^verbatim>\<open>finally\<close> unregisters the listener and the returned promise settles.
\<close>

definition send_resume :: "nat \<Rightarrow> client \<Rightarrow> client" where
  "send_resume c st =
     (case sends st c of
        None \<Rightarrow> st
      | Some call \<Rightarrow>
          (case phase call of
             AwaitConnect k \<Rightarrow>
               (case connects st k of
                  Some ConnectResolved \<Rightarrow>
                    (case socket_field st of
                       Some a \<Rightarrow>
                         st\<lparr>sockets := (sockets st)[a := socketSend (message call) (sockets st ! a)],
                            onMessageCallbacks := registerCallback (onMessageCallbacks st)
                                                    (ReplyListener c (message call)),
                            sends := (sends st)(c \<mapsto> call\<lparr>phase := Listening\<rparr>)\<rparr>
                     | None \<Rightarrow>
                         st\<lparr>sends := (sends st)(c \<mapsto> call\<lparr>phase := ExecutorFailed ''TypeError''\<rparr>),
                            uncaught := uncaught st @ [''TypeError'']\<rparr>)
                | Some (ConnectRejected err) \<Rightarrow>
                    st\<lparr>sends := (sends st)(c \<mapsto> call\<lparr>phase := ExecutorFailed err\<rparr>),
                       uncaught := uncaught st @ [err]\<rparr>
                | _ \<Rightarrow> st)
           | Listening \<Rightarrow>
               (if inner call = Pending then st
                else st\<lparr>onMessageCallbacks := unregisterCallback (ReplyListener c (message call))
                                                (onMessageCallbacks st),
                        sends := (sends st)(c \<mapsto> call\<lparr>phase := Finalized\<rparr>)\<rparr>)
           | _ \<Rightarrow> st))"

text \<open>The promise that \<^verbatim>\<open>sendAndWaitReply\<close> returns: the one that \<^verbatim>\<open>finally\<close> derives.\<close>

definition returned :: "client \<Rightarrow> nat \<Rightarrow> wm_data option promise" where
  "returned st c =
     (case sends st c of
        None \<Rightarrow> Pending
      | Some call \<Rightarrow> (if phase call = Finalized then inner call else Pending))"

definition sendQuery :: "string \<Rightarrow> string" where
  "sendQuery query = ''query '' @ query"

text \<open>
  The request text of \<^verbatim>\<open>runCommand(command, contextContainer)\<close>. The context is missing, an
  id, or a container object, of which only the id is read. \<^verbatim>\<open>!contextContainer\<close> holds of a
  missing context and of the empty string.
\<close>

datatype context_container = ContainerId string | ContainerObject string

definition runCommand :: "string \<Rightarrow> context_container option \<Rightarrow> string" where
  "runCommand command contextContainer =
     (case contextContainer of
        None \<Rightarrow> ''command '' @ command
      | Some (ContainerId contextContainerId) \<Rightarrow>
          (if contextContainerId = [] then ''command '' @ command
           else ''command '' @ [CHR 0x22] @ command @ [CHR 0x22] @ '' -c '' @ contextContainerId)
      | Some (ContainerObject contextContainerId) \<Rightarrow>
          ''command '' @ [CHR 0x22] @ command @ [CHR 0x22] @ '' -c '' @ contextContainerId)"

section \<open>Subscription multiplexer\<close>

fun join :: "string list \<Rightarrow> string" where
  "join [] = []"
| "join [x] = x"
| "join (x # y # ys) = x @ '','' @ join (y # ys)"

definition eventType :: "server_message \<Rightarrow> string option" where
  "eventType serverMessage = (case data serverMessage of None \<Rightarrow> None | Some d \<Rightarrow> map_of d ''type'')"

definition isSubscribedEvent :: "server_message \<Rightarrow> string list \<Rightarrow> bool" where
  "isSubscribedEvent serverMessage events \<longleftrightarrow>
     messageType serverMessage = Some ''event_subscription'' \<and>
     (case eventType serverMessage of None \<Rightarrow> False | Some t \<Rightarrow> t \<in> set events)"

text \<open>\<^verbatim>\<open>subscribeMany(events, callback)\<close> up to its \<^verbatim>\<open>await\<close>; the subscription is \<open>s\<close>.\<close>

definition subscribeMany_start :: "string list \<Rightarrow> client \<Rightarrow> client" where
  "subscribeMany_start events st =
     (let s = nextId st in
      case sendAndWaitReply_start (''subscribe -e '' @ join events) (st\<lparr>nextId := s + 1\<rparr>) of
        (c, st1) \<Rightarrow> st1\<lparr>subscriptions := (subscriptions st1)(s \<mapsto> (events, AwaitSubscribeReply c))\<rparr>)"

text \<open>
  Its continuation: a rejected request rejects the call; on a reply the standing listener
  is registered and the capability returned.
\<close>

definition subscribe_resume :: "nat \<Rightarrow> client \<Rightarrow> client" where
  "subscribe_resume s st =
     (case subscriptions st s of
        Some (events, AwaitSubscribeReply c) \<Rightarrow>
          (case returned st c of
             Pending \<Rightarrow> st
           | Rejected err \<Rightarrow>
               st\<lparr>subscriptions := (subscriptions st)(s \<mapsto> (events, SubscribeRejected err))\<rparr>
           | Fulfilled response \<Rightarrow>
               st\<lparr>onMessageCallbacks := registerCallback (onMessageCallbacks st)
                                          (SubscribeListener s events),
                  subscriptions := (subscriptions st)(s \<mapsto> (events, SubscribeActive response))\<rparr>)
      | _ \<Rightarrow> st)"

text \<open>
  The capability that \<^verbatim>\<open>subscribeMany\<close> returns, up to its \<^verbatim>\<open>await\<close>: the listener is
  unregistered, then the unsubscribe request is started. Reading \<^verbatim>\<open>subscriptionId\<close> of a
  reply without data throws.
\<close>

definition unlisten :: "nat \<Rightarrow> client \<Rightarrow> client" where
  "unlisten s st =
     (case subscriptions st s of
        Some (events, SubscribeActive response) \<Rightarrow>
          (let st1 = st\<lparr>onMessageCallbacks := unregisterCallback (SubscribeListener s events)
                                                (onMessageCallbacks st)\<rparr>
           in case response of
                None \<Rightarrow> st1
              | Some d \<Rightarrow>
                  snd (sendAndWaitReply_start
                         (''unsubscribe '' @ (case map_of d ''subscriptionId'' of
                                                None \<Rightarrow> ''undefined'' | Some i \<Rightarrow> i)) st1))
      | _ \<Rightarrow> st)"

section \<open>Application code\<close>

text \<open>
  What the application can do with a client: call a method, or a capability that a method
  returned. An \<^verbatim>\<open>async\<close> method runs to its first \<^verbatim>\<open>await\<close> inside the call. The callbacks
  of the application carry an identity that the application chooses.
\<close>

datatype call =
    Connect
  | CloseConnection
  | SendAndWaitReply string
  | SubscribeMany "string list"
  | Unlisten nat
  | OnMessage nat
  | OnConnect nat
  | OnDisconnect nat
  | OnError nat
  | UnlistenMessage nat
  | UnlistenConnect nat
  | UnlistenDisconnect nat
  | UnlistenError nat

fun perform :: "call \<Rightarrow> client \<Rightarrow> client" where
  "perform Connect st = connect_start (nextId st) (st\<lparr>nextId := nextId st + 1\<rparr>)"
| "perform CloseConnection st = closeConnection st"
| "perform (SendAndWaitReply msg) st = snd (sendAndWaitReply_start msg st)"
| "perform (SubscribeMany events) st = subscribeMany_start events st"
| "perform (Unlisten s) st = unlisten s st"
| "perform (OnMessage u) st =
     st\<lparr>onMessageCallbacks := registerCallback (onMessageCallbacks st) (UserMessageCallback u)\<rparr>"
| "perform (OnConnect u) st =
     st\<lparr>onConnectCallbacks := registerCallback (onConnectCallbacks st) (UserConnectCallback u)\<rparr>"
| "perform (OnDisconnect u) st =
     st\<lparr>onDisconnectCallbacks := registerCallback (onDisconnectCallbacks st) u\<rparr>"
| "perform (OnError u) st = st\<lparr>onErrorCallbacks := registerCallback (onErrorCallbacks st) u\<rparr>"
| "perform (UnlistenMessage u) st =
     st\<lparr>onMessageCallbacks := unregisterCallback (UserMessageCallback u) (onMessageCallbacks st)\<rparr>"
| "perform (UnlistenConnect u) st =
     st\<lparr>onConnectCallbacks := unregisterCallback (UserConnectCallback u) (onConnectCallbacks st)\<rparr>"
| "perform (UnlistenDisconnect u) st =
     st\<lparr>onDisconnectCallbacks := unregisterCallback u (onDisconnectCallbacks st)\<rparr>"
| "perform (UnlistenError u) st = st\<lparr>onErrorCallbacks := unregisterCallback u (onErrorCallbacks st)\<rparr>"

text \<open>
  A callback or a subscription handler of the application is a function of the application:
  when the client calls it, it may call the client any number of times and then returns or
  throws. What it does is not given by the client, so every event of the stream comes with
  a script: the reaction of the application code that is called at index \<open>k\<close> of the pass
  over the callbacks.
\<close>

datatype reaction = Reaction (calls: "call list") (throws: bool)

type_synonym script = "nat \<Rightarrow> reaction"

definition runApp :: "reaction \<Rightarrow> client \<Rightarrow> string option \<times> client" where
  "runApp r st = (if throws r then Some ''Error'' else None, fold perform (calls r) st)"

text \<open>The application code that calls nothing and returns.\<close>

definition quiet :: script where
  "quiet = (\<lambda>k. Reaction [] False)"

section \<open>Stream handlers\<close>

text \<open>
  Each handler of the socket is \<^verbatim>\<open>callbacks.forEach(callback => callback(e))\<close> on a registry
  of the client. \<^verbatim>\<open>forEach\<close> reads the length of the array once and then visits that many
  indices, from 0 upwards; at each index it reads the array as it is then, calls the entry
  it finds there, and steps over an index that is no longer in the array. An entry pushed
  during the pass lies beyond the indices visited; a \<^verbatim>\<open>splice\<close> during the pass moves the
  later entries down, and the entry that moves to the index just visited is not called. An
  exception ends the pass and leaves the handler. In \<open>forEach callbacks callbackfn n k st\<close>,
  \<open>n\<close> indices remain and \<open>k\<close> is the next one; the first component of the result of a callback
  is the exception it throws.
\<close>

fun forEach ::
  "(client \<Rightarrow> 'a list) \<Rightarrow> (nat \<Rightarrow> 'a \<Rightarrow> client \<Rightarrow> string option \<times> client) \<Rightarrow>
     nat \<Rightarrow> nat \<Rightarrow> client \<Rightarrow> client" where
  "forEach callbacks callbackfn 0 k st = st"
| "forEach callbacks callbackfn (Suc n) k st =
     (if k < length (callbacks st) then
        (case callbackfn k (callbacks st ! k) st of
           (None, st') \<Rightarrow> forEach callbacks callbackfn n (Suc k) st'
         | (Some err, st') \<Rightarrow> st'\<lparr>uncaught := uncaught st' @ [err]\<rparr>)
      else forEach callbacks callbackfn n (Suc k) st)"

text \<open>
  The connect callbacks: the callback of \<^verbatim>\<open>_waitForConnection\<close> resolves the wait of its
  connect task, a callback of the application runs application code.
\<close>

fun invokeConnect :: "connect_callback \<Rightarrow> reaction \<Rightarrow> client \<Rightarrow> string option \<times> client" where
  "invokeConnect (ConnectWaiter k) r st =
     (None, if connects st k = Some AwaitOpen
            then st\<lparr>connects := (connects st)(k \<mapsto> OpenNotified)\<rparr> else st)"
| "invokeConnect (UserConnectCallback u) r st = runApp r st"

definition onopen :: "script \<Rightarrow> client \<Rightarrow> client" where
  "onopen app st =
     forEach onConnectCallbacks (\<lambda>k callback. invokeConnect callback (app k))
       (length (onConnectCallbacks st)) 0 st"

text \<open>
  The body of the standing listener of subscription \<open>s\<close>, after the payload was parsed:
  the handler is application code, called inside the pass.
\<close>

definition subscribeListener ::
  "nat \<Rightarrow> string list \<Rightarrow> reaction \<Rightarrow> server_message \<Rightarrow> client \<Rightarrow> string option \<times> client" where
  "subscribeListener s events handler serverMessage st =
     (if isSubscribedEvent serverMessage events
      then runApp handler (st\<lparr>handlerLog := handlerLog st @ [(s, data serverMessage)]\<rparr>)
      else (None, st))"

text \<open>
  One message callback on one payload. Both listeners of the client parse the payload and
  read \<^verbatim>\<open>messageType\<close> before anything else.
\<close>

fun invokeMessage ::
  "message_callback \<Rightarrow> reaction \<Rightarrow> inbound \<Rightarrow> client \<Rightarrow> string option \<times> client" where
  "invokeMessage (ReplyListener c msg) r e st =
     (case e of
        SyntaxError \<Rightarrow> (Some ''SyntaxError'', st)
      | JsonNull \<Rightarrow> (Some ''TypeError'', st)
      | Envelope serverMessage \<Rightarrow> (None, replyListener c msg serverMessage st))"
| "invokeMessage (SubscribeListener s events) r e st =
     (case e of
        SyntaxError \<Rightarrow> (Some ''SyntaxError'', st)
      | JsonNull \<Rightarrow> (Some ''TypeError'', st)
      | Envelope serverMessage \<Rightarrow> subscribeListener s events r serverMessage st)"
| "invokeMessage (UserMessageCallback u) r e st = runApp r st"

definition onmessage :: "script \<Rightarrow> inbound \<Rightarrow> client \<Rightarrow> client" where
  "onmessage app e st =
     forEach onMessageCallbacks
       (\<lambda>k callback s. invokeMessage callback (app k) e (s\<lparr>invokedLog := invokedLog s @ [callback]\<rparr>))
       (length (onMessageCallbacks st)) 0 st"

text \<open>The disconnect and error callbacks are all callbacks of the application.\<close>

definition onclose :: "script \<Rightarrow> client \<Rightarrow> client" where
  "onclose app st =
     forEach onDisconnectCallbacks (\<lambda>k callback. runApp (app k))
       (length (onDisconnectCallbacks st)) 0 st"

definition onerror :: "script \<Rightarrow> client \<Rightarrow> client" where
  "onerror app st =
     forEach onErrorCallbacks (\<lambda>k callback. runApp (app k)) (length (onErrorCallbacks st)) 0 st"

section \<open>Runs of the client\<close>

text \<open>
  What can happen to a client: the application calls it, a suspended call is resumed, or
  the stream raises an event, which comes with the script of the application code that the
  handler calls. A step that is not possible in a state leaves it as it is.
\<close>

datatype action =
    Call call
  | ResumeCreateSocket nat
  | ResumeConnect nat
  | ResumeSend nat
  | ResumeSubscribe nat
  | SocketOpen nat script
  | SocketMessage nat inbound script
  | SocketClose nat script
  | SocketError nat script

text \<open>
  The events of a socket. The open event comes once, to a socket that is connecting, and
  messages come while it is open or closing.
\<close>

definition socketOpen :: "nat \<Rightarrow> script \<Rightarrow> client \<Rightarrow> client" where
  "socketOpen a app st =
     (if a < length (sockets st) \<and> readyState (sockets st ! a) = CONNECTING
      then onopen app (st\<lparr>sockets := (sockets st)[a := (sockets st ! a)\<lparr>readyState := OPEN\<rparr>]\<rparr>)
      else st)"

definition socketMessage :: "nat \<Rightarrow> inbound \<Rightarrow> script \<Rightarrow> client \<Rightarrow> client" where
  "socketMessage a e app st =
     (if a < length (sockets st) \<and> readyState (sockets st ! a) \<in> {OPEN, CLOSING}
      then onmessage app e st else st)"

definition socketClose :: "nat \<Rightarrow> script \<Rightarrow> client \<Rightarrow> client" where
  "socketClose a app st =
     (if a < length (sockets st) \<and> readyState (sockets st ! a) \<noteq> CLOSED
      then onclose app (st\<lparr>sockets := (sockets st)[a := (sockets st ! a)\<lparr>readyState := CLOSED\<rparr>]\<rparr>)
      else st)"

definition socketError :: "nat \<Rightarrow> script \<Rightarrow> client \<Rightarrow> client" where
  "socketError a app st = (if a < length (sockets st) then onerror app st else st)"

fun step :: "action \<Rightarrow> client \<Rightarrow> client" where
  "step (Call c) st = perform c st"
| "step (ResumeCreateSocket p) st = createSocket_resume p st"
| "step (ResumeConnect k) st = connect_resume k st"
| "step (ResumeSend c) st = send_resume c st"
| "step (ResumeSubscribe s) st = subscribe_resume s st"
| "step (SocketOpen a app) st = socketOpen a app st"
| "step (SocketMessage a e app) st = socketMessage a e app st"
| "step (SocketClose a app) st = socketClose a app st"
| "step (SocketError a app) st = socketError a app st"

definition run :: "client \<Rightarrow> action list \<Rightarrow> client" where
  "run st actions = fold step actions st"

section \<open>Invariants and observations\<close>

text \<open>The stream is open when a socket of the client is in state \<^verbatim>\<open>OPEN\<close>.\<close>

definition streamOpen :: "client \<Rightarrow> bool" where
  "streamOpen st \<longleftrightarrow> (\<exists>s \<in> set (sockets st). readyState s = OPEN)"

text \<open>A socket of the client has left the state \<^verbatim>\<open>CONNECTING\<close>.\<close>

definition opened :: "client \<Rightarrow> bool" where
  "opened st \<longleftrightarrow> (\<exists>s \<in> set (sockets st). readyState s \<noteq> CONNECTING)"

text \<open>
  The connection of a client is absent, being created (or its creation has failed), or
  created; there is never a second promise or a second socket.
\<close>

definition conn_inv :: "client \<Rightarrow> bool" where
  "conn_inv st \<longleftrightarrow>
     (createSocketCalls st = [] \<and> createSocketPromise st = None \<and> sockets st = [] \<and>
      socket_field st = None) \<or>
     (createSocketPromise st = Some 0 \<and> sockets st = [] \<and> socket_field st = None \<and>
      (createSocketCalls st = [Pending] \<or> (\<exists>e. createSocketCalls st = [Rejected e]))) \<or>
     (createSocketPromise st = Some 0 \<and> createSocketCalls st = [Fulfilled 0] \<and>
      length (sockets st) = 1 \<and> (socket_field st = None \<or> socket_field st = Some 0))"

text \<open>
  The suspended calls of \<^verbatim>\<open>connect()\<close>: a call that awaits the socket promise awaits the
  promise in the field; a call that awaits the open event has its callback registered; a
  call was rejected only by a failed creation; a call was notified or has resolved only
  after the socket left the state \<^verbatim>\<open>CONNECTING\<close>; and every call has an identity already
  given out.
\<close>

definition task_inv :: "client \<Rightarrow> bool" where
  "task_inv st \<longleftrightarrow>
     (\<forall>k p. connects st k = Some (AwaitSocketPromise p) \<longrightarrow>
        p = 0 \<and> createSocketPromise st = Some 0) \<and>
     (\<forall>k. connects st k = Some AwaitOpen \<longrightarrow>
        ConnectWaiter k \<in> set (onConnectCallbacks st) \<and> socket_field st = Some 0) \<and>
     (\<forall>k e. connects st k = Some (ConnectRejected e) \<longrightarrow>
        (\<exists>e'. createSocketCalls st = [Rejected e'])) \<and>
     (\<forall>k. connects st k = Some OpenNotified \<or> connects st k = Some ConnectResolved \<longrightarrow>
        opened st) \<and>
     (\<forall>k. connects st k \<noteq> None \<longrightarrow> k < nextId st)"

text \<open>The request text and the phase of a call, which no reply changes.\<close>

definition callShape :: "client \<Rightarrow> nat \<Rightarrow> (string \<times> send_phase) option" where
  "callShape st c = map_option (\<lambda>call. (message call, phase call)) (sends st c)"

text \<open>
  The standing listeners: a registered listener belongs to an active subscription with the
  same events, is registered once, and every subscription has an identity already given out.
\<close>

definition sub_inv :: "client \<Rightarrow> bool" where
  "sub_inv st \<longleftrightarrow>
     (\<forall>s S. SubscribeListener s S \<in> set (onMessageCallbacks st) \<longrightarrow>
        (\<exists>r. subscriptions st s = Some (S, SubscribeActive r))) \<and>
     (\<forall>s S. count_list (onMessageCallbacks st) (SubscribeListener s S) \<le> 1) \<and>
     (\<forall>s. subscriptions st s \<noteq> None \<longrightarrow> s < nextId st)"

text \<open>
  The transient listeners: the listener of a call is registered exactly while the call is
  in phase \<open>Listening\<close>, with the text of the call, and once.
\<close>

definition reply_inv :: "client \<Rightarrow> bool" where
  "reply_inv st \<longleftrightarrow>
     (\<forall>c m. ReplyListener c m \<in> set (onMessageCallbacks st) \<longleftrightarrow>
        callShape st c = Some (m, Listening)) \<and>
     (\<forall>c m. count_list (onMessageCallbacks st) (ReplyListener c m) \<le> 1) \<and>
     (\<forall>c. sends st c \<noteq> None \<longrightarrow> c < nextId st)"

definition wm_inv :: "client \<Rightarrow> bool" where
  "wm_inv st \<longleftrightarrow> conn_inv st \<and> task_inv st \<and> sub_inv st \<and> reply_inv st"

text \<open>What a matching reply makes of a pending promise.\<close>

definition replyOutcome :: "server_message \<Rightarrow> string \<Rightarrow> wm_data option promise" where
  "replyOutcome serverMessage msg =
     (case error serverMessage of
        None \<Rightarrow> Fulfilled (data serverMessage)
      | Some e \<Rightarrow> if e = [] then Fulfilled (data serverMessage) else Rejected (errorReason msg e))"

text \<open>The arguments with which the handler of subscription \<open>s\<close> was called, in order.\<close>

definition invocations :: "nat \<Rightarrow> client \<Rightarrow> wm_data option list" where
  "invocations s st = map snd (filter (\<lambda>entry. fst entry = s) (handlerLog st))"

fun isUserCallback :: "message_callback \<Rightarrow> bool" where
  "isUserCallback (UserMessageCallback u) = True"
| "isUserCallback _ = False"

text \<open>
  The number of entries ahead of the first entry \<open>cb\<close> of a registry: the index of that
  entry, and the number of indices that a pass visits before it reaches the entry.
\<close>

definition ahead :: "'a \<Rightarrow> 'a list \<Rightarrow> nat" where
  "ahead cb cbs = length (takeWhile (\<lambda>x. x \<noteq> cb) cbs)"

text \<open>
  Application code that returns and has unregistered no message callback (through the
  capability of \<^verbatim>\<open>onMessage\<close> or of a subscription); and the same for connect callbacks.
\<close>

fun unregistersMessage :: "call \<Rightarrow> bool" where
  "unregistersMessage (UnlistenMessage u) = True"
| "unregistersMessage (Unlisten s) = True"
| "unregistersMessage _ = False"

fun unregistersConnect :: "call \<Rightarrow> bool" where
  "unregistersConnect (UnlistenConnect u) = True"
| "unregistersConnect _ = False"

definition calm :: "reaction \<Rightarrow> bool" where
  "calm r \<longleftrightarrow> \<not> throws r \<and> list_all (\<lambda>c. \<not> unregistersMessage c) (calls r)"

definition calmOpen :: "reaction \<Rightarrow> bool" where
  "calmOpen r \<longleftrightarrow> \<not> throws r \<and> list_all (\<lambda>c. \<not> unregistersConnect c) (calls r)"

text \<open>
  Subscription \<open>s\<close> has no listener registered and is past its subscribe request; connect
  task \<open>k\<close> waits for the open event of a socket that was closed; the executor of call \<open>c\<close>
  has ended with an exception; call \<open>c\<close> waits for such a connect task.
\<close>

definition torn_down :: "nat \<Rightarrow> client \<Rightarrow> bool" where
  "torn_down s st \<longleftrightarrow>
     (\<forall>S. SubscribeListener s S \<notin> set (onMessageCallbacks st)) \<and>
     (\<exists>S r. subscriptions st s = Some (S, r) \<and> (\<forall>c. r \<noteq> AwaitSubscribeReply c)) \<and>
     s < nextId st"

definition never_opens :: "nat \<Rightarrow> client \<Rightarrow> bool" where
  "never_opens k st \<longleftrightarrow>
     (\<exists>s. sockets st = [s] \<and> (readyState s = CLOSING \<or> readyState s = CLOSED)) \<and>
     createSocketCalls st = [Fulfilled 0] \<and> createSocketPromise st = Some 0 \<and>
     socket_field st = Some 0 \<and> connects st k = Some AwaitOpen \<and> k < nextId st"

definition executor_failed :: "nat \<Rightarrow> client \<Rightarrow> bool" where
  "executor_failed c st \<longleftrightarrow>
     (\<exists>call e. sends st c = Some call \<and> phase call = ExecutorFailed e) \<and> c < nextId st"

definition waits_forever :: "nat \<Rightarrow> nat \<Rightarrow> client \<Rightarrow> bool" where
  "waits_forever c k st \<longleftrightarrow>
     never_opens k st \<and> (\<exists>call. sends st c = Some call \<and> phase call = AwaitConnect k) \<and>
     c < nextId st"

text \<open>A client without a \<^verbatim>\<open>WebSocket\<close> class: no socket, no call that was sent.\<close>

definition no_transport :: "client \<Rightarrow> bool" where
  "no_transport st \<longleftrightarrow>
     environment st = NoWebSocket \<and> sockets st = [] \<and> socket_field st = None \<and>
     (\<forall>a. Fulfilled a \<notin> set (createSocketCalls st)) \<and>
     (\<forall>k. connects st k \<noteq> Some ConnectResolved \<and> connects st k \<noteq> Some OpenNotified) \<and>
     (\<forall>c call. sends st c = Some call \<longrightarrow>
        inner call = Pending \<and> phase call \<noteq> Listening \<and> phase call \<noteq> Finalized)"

section \<open>The unregister loop\<close>

lemma unregisterFrom_done: "length cs \<le> index \<Longrightarrow> unregisterFrom index c cs = cs"
  by (subst unregisterFrom.simps) simp

lemma unregisterFrom_step:
  "unregisterFrom (length pre) c (pre @ x # post) =
     (if x = c then unregisterFrom (Suc (length pre)) c (pre @ post)
      else unregisterFrom (Suc (length pre)) c (pre @ x # post))"
  by (subst unregisterFrom.simps) simp

lemma unregisterFrom_sweep:
  "unregisterFrom (length pre) c (pre @ post) = pre @ sweep c post"
proof (induction c post arbitrary: pre rule: sweep.induct)
  case (1 c)
  show ?case by (simp add: unregisterFrom_done)
next
  case (2 c x)
  show ?case by (simp add: unregisterFrom_step unregisterFrom_done)
next
  case (3 c x y ys)
  show ?case
  proof (cases "x = c")
    case True
    have "unregisterFrom (length pre) c (pre @ x # y # ys)
            = unregisterFrom (length (pre @ [y])) c ((pre @ [y]) @ ys)"
      using True by (simp add: unregisterFrom_step)
    also have "\<dots> = (pre @ [y]) @ sweep c ys"
      using True by (rule "3.IH"(1))
    finally show ?thesis using True by simp
  next
    case False
    have "unregisterFrom (length pre) c (pre @ x # y # ys)
            = unregisterFrom (length (pre @ [x])) c ((pre @ [x]) @ y # ys)"
      using False by (simp add: unregisterFrom_step)
    also have "\<dots> = (pre @ [x]) @ sweep c (y # ys)"
      using False by (rule "3.IH"(2))
    finally show ?thesis using False by simp
  qed
qed

lemma unregisterCallback_sweep: "unregisterCallback c callbacks = sweep c callbacks"
  using unregisterFrom_sweep [of "[]" c callbacks] by (simp add: unregisterCallback_def)

lemma sweep_filter: "filter (\<lambda>x. x \<noteq> c) (sweep c xs) = filter (\<lambda>x. x \<noteq> c) xs"
  by (induction c xs rule: sweep.induct) auto

lemma sweep_absent: "c \<notin> set xs \<Longrightarrow> sweep c xs = xs"
  by (induction c xs rule: sweep.induct) auto

lemma sweep_head: "c \<notin> set ys \<Longrightarrow> sweep c (c # ys) = ys"
  by (cases ys) (auto simp: sweep_absent)

lemma sweep_once: "c \<notin> set xs \<Longrightarrow> c \<notin> set ys \<Longrightarrow> sweep c (xs @ c # ys) = xs @ ys"
  by (induction c xs rule: sweep.induct) (auto simp: sweep_head)

lemma set_sweep_subset: "set (sweep c xs) \<subseteq> set xs"
  by (induction c xs rule: sweep.induct) auto

lemma sweep_other_mem: "x \<noteq> c \<Longrightarrow> x \<in> set (sweep c xs) \<longleftrightarrow> x \<in> set xs"
  by (induction c xs rule: sweep.induct) auto

lemma count_sweep_le: "count_list (sweep c xs) x \<le> count_list xs x"
  by (induction c xs rule: sweep.induct) auto

lemma count_le_sweep: "count_list xs x \<le> n \<Longrightarrow> count_list (sweep c xs) x \<le> n"
  using count_sweep_le [of c xs x] by simp

lemma sweep_removes_single: "count_list xs c \<le> 1 \<Longrightarrow> c \<notin> set (sweep c xs)"
proof (induction c xs rule: sweep.induct)
  case (3 c x y ys)
  then show ?case by (auto simp: sweep_absent count_list_0_iff split: if_splits)
qed auto


section \<open>Passes over a registry\<close>

lemma forEach_rule:
  assumes "I k st"
    and "\<And>j s s'. I j s \<Longrightarrow> k \<le> j \<Longrightarrow> j < k + n \<Longrightarrow> j < length (reg s) \<Longrightarrow>
           f j (reg s ! j) s = (None, s') \<Longrightarrow> I (Suc j) s'"
    and "\<And>j s s' err. I j s \<Longrightarrow> k \<le> j \<Longrightarrow> j < k + n \<Longrightarrow> j < length (reg s) \<Longrightarrow>
           f j (reg s ! j) s = (Some err, s') \<Longrightarrow> R (s'\<lparr>uncaught := uncaught s' @ [err]\<rparr>)"
    and "\<And>j s. I j s \<Longrightarrow> k \<le> j \<Longrightarrow> j < k + n \<Longrightarrow> \<not> j < length (reg s) \<Longrightarrow> I (Suc j) s"
    and "\<And>s. I (k + n) s \<Longrightarrow> R s"
  shows "R (forEach reg f n k st)"
  using assms
proof (induction n arbitrary: k st)
  case 0
  then show ?case by simp
next
  case (Suc n)
  have rest: "R (forEach reg f n (Suc k) s)" if "I (Suc k) s" for s
  proof (rule Suc.IH [OF that])
    show "I (Suc j) s'" if "I j s" "Suc k \<le> j" "j < Suc k + n" "j < length (reg s)"
      "f j (reg s ! j) s = (None, s')" for j s s'
      using Suc.prems(2) [OF that(1) _ _ that(4,5)] that(2,3) by simp
    show "R (s'\<lparr>uncaught := uncaught s' @ [err]\<rparr>)" if "I j s" "Suc k \<le> j" "j < Suc k + n"
      "j < length (reg s)" "f j (reg s ! j) s = (Some err, s')" for j s s' err
      using Suc.prems(3) [OF that(1) _ _ that(4,5)] that(2,3) by simp
    show "I (Suc j) s" if "I j s" "Suc k \<le> j" "j < Suc k + n" "\<not> j < length (reg s)" for j s
      using Suc.prems(4) [OF that(1) _ _ that(4)] that(2,3) by simp
    show "R s" if "I (Suc k + n) s" for s
      using Suc.prems(5) [of s] that by simp
  qed
  show ?case
  proof (cases "k < length (reg st)")
    case False
    then have "I (Suc k) st" using Suc.prems(4) [OF Suc.prems(1)] by simp
    then show ?thesis using rest False by simp
  next
    case True
    obtain x s' where r: "f k (reg st ! k) st = (x, s')" by (cases "f k (reg st ! k) st")
    show ?thesis
    proof (cases x)
      case None
      then have "I (Suc k) s'" using Suc.prems(2) [OF Suc.prems(1) _ _ True, of s'] r by simp
      then show ?thesis using rest True r None by simp
    next
      case (Some err)
      then have "R (s'\<lparr>uncaught := uncaught s' @ [err]\<rparr>)"
        using Suc.prems(3) [OF Suc.prems(1) _ _ True, of err s'] r by simp
      then show ?thesis using True r Some by simp
    qed
  qed
qed

lemma forEach_preserves:
  assumes "P st"
    and "\<And>j s. P s \<Longrightarrow> j < length (reg s) \<Longrightarrow> P (snd (f j (reg s ! j) s))"
    and "\<And>s l. P s \<Longrightarrow> P (s\<lparr>uncaught := l\<rparr>)"
  shows "P (forEach reg f n k st)"
proof (rule forEach_rule [where I = "\<lambda>j. P" and R = P])
  show "P st" by fact
  show "P s'" if "P s" "j < length (reg s)" "f j (reg s ! j) s = (None, s')" for j s s'
    using assms(2) [OF that(1,2)] that(3) by simp
  show "P (s'\<lparr>uncaught := uncaught s' @ [err]\<rparr>)"
    if "P s" "j < length (reg s)" "f j (reg s ! j) s = (Some err, s')" for j s s' err
    using assms(2) [OF that(1,2)] that(3) assms(3) by simp
qed

lemma fold_perform_preserves:
  "(\<And>c s. P s \<Longrightarrow> c \<in> set cs \<Longrightarrow> P (perform c s)) \<Longrightarrow> P st \<Longrightarrow> P (fold perform cs st)"
  by (induction cs arbitrary: st) simp_all

lemma runApp_preserves:
  "(\<And>c s. P s \<Longrightarrow> c \<in> set (calls r) \<Longrightarrow> P (perform c s)) \<Longrightarrow> P st \<Longrightarrow> P (snd (runApp r st))"
  by (simp add: runApp_def fold_perform_preserves)

text \<open>
  A property that application calls, the logs and the listeners of the client preserve
  holds after a pass.
\<close>

lemma onmessage_preserves:
  assumes "P st"
    and "\<And>c s. P s \<Longrightarrow> P (perform c s)"
    and "\<And>s l. P s \<Longrightarrow> P (s\<lparr>invokedLog := l\<rparr>)"
    and "\<And>s l. P s \<Longrightarrow> P (s\<lparr>uncaught := l\<rparr>)"
    and "\<And>c msg m s. P s \<Longrightarrow> ReplyListener c msg \<in> set (onMessageCallbacks s) \<Longrightarrow>
           e = Envelope m \<Longrightarrow> P (replyListener c msg m s)"
    and "\<And>x S m s. P s \<Longrightarrow> SubscribeListener x S \<in> set (onMessageCallbacks s) \<Longrightarrow>
           isSubscribedEvent m S \<Longrightarrow> e = Envelope m \<Longrightarrow>
           P (s\<lparr>handlerLog := handlerLog s @ [(x, data m)]\<rparr>)"
  shows "P (onmessage app e st)"
  unfolding onmessage_def
proof (rule forEach_preserves [of P, OF assms(1) _ assms(4)])
  fix j s
  assume P: "P s" and j: "j < length (onMessageCallbacks s)"
  let ?cb = "onMessageCallbacks s ! j"
  let ?s = "s\<lparr>invokedLog := invokedLog s @ [?cb]\<rparr>"
  have mem: "?cb \<in> set (onMessageCallbacks s)" using j by simp
  have P1: "P ?s" using assms(3) [OF P] .
  show "P (snd (invokeMessage ?cb (app j) e ?s))"
  proof (cases ?cb)
    case (ReplyListener c msg)
    have "P (replyListener c msg m ?s)" if "e = Envelope m" for m
    proof (rule assms(5) [OF P1 _ that])
      show "ReplyListener c msg \<in> set (onMessageCallbacks ?s)" using mem ReplyListener by simp
    qed
    then show ?thesis using ReplyListener P1 by (cases e) simp_all
  next
    case (SubscribeListener x S)
    have "P (snd (subscribeListener x S (app j) m ?s))" if "e = Envelope m" for m
    proof (cases "isSubscribedEvent m S")
      case True
      have "P (?s\<lparr>handlerLog := handlerLog ?s @ [(x, data m)]\<rparr>)"
      proof (rule assms(6) [OF P1 _ True that])
        show "SubscribeListener x S \<in> set (onMessageCallbacks ?s)"
          using mem SubscribeListener by simp
      qed
      then show ?thesis
        using True assms(2) by (simp add: subscribeListener_def runApp_preserves)
    next
      case False
      then show ?thesis using P1 by (simp add: subscribeListener_def)
    qed
    then show ?thesis using SubscribeListener P1 by (cases e) simp_all
  next
    case (UserMessageCallback u)
    then show ?thesis using P1 assms(2) by (simp add: runApp_preserves)
  qed
qed

lemma onopen_preserves:
  assumes "P st"
    and "\<And>c s. P s \<Longrightarrow> P (perform c s)"
    and "\<And>s l. P s \<Longrightarrow> P (s\<lparr>uncaught := l\<rparr>)"
    and "\<And>k s. P s \<Longrightarrow> ConnectWaiter k \<in> set (onConnectCallbacks s) \<Longrightarrow>
           connects s k = Some AwaitOpen \<Longrightarrow> P (s\<lparr>connects := (connects s)(k \<mapsto> OpenNotified)\<rparr>)"
  shows "P (onopen app st)"
  unfolding onopen_def
proof (rule forEach_preserves [of P, OF assms(1) _ assms(3)])
  fix j s
  assume P: "P s" and j: "j < length (onConnectCallbacks s)"
  let ?cb = "onConnectCallbacks s ! j"
  have mem: "?cb \<in> set (onConnectCallbacks s)" using j by simp
  show "P (snd (invokeConnect ?cb (app j) s))"
  proof (cases ?cb)
    case (ConnectWaiter k)
    then show ?thesis using P mem assms(4) [of s k] by simp
  next
    case (UserConnectCallback u)
    then show ?thesis using P assms(2) by (simp add: runApp_preserves)
  qed
qed

lemma onclose_preserves:
  assumes "P st" and "\<And>c s. P s \<Longrightarrow> P (perform c s)" and "\<And>s l. P s \<Longrightarrow> P (s\<lparr>uncaught := l\<rparr>)"
  shows "P (onclose app st)"
  unfolding onclose_def
  by (rule forEach_preserves [of P, OF assms(1) _ assms(3)]) (simp add: runApp_preserves assms(2))

lemma onerror_preserves:
  assumes "P st" and "\<And>c s. P s \<Longrightarrow> P (perform c s)" and "\<And>s l. P s \<Longrightarrow> P (s\<lparr>uncaught := l\<rparr>)"
  shows "P (onerror app st)"
  unfolding onerror_def
  by (rule forEach_preserves [of P, OF assms(1) _ assms(3)]) (simp add: runApp_preserves assms(2))


section \<open>What the operations leave unchanged\<close>

lemmas op_defs =
  connect_start_def createSocket_start_def createSocket_resume_def waitForConnection_def
  connect_resume_def closeConnection_def sendAndWaitReply_start_def send_resume_def
  subscribeMany_start_def subscribe_resume_def unlisten_def

lemmas event_defs = socketOpen_def socketMessage_def socketClose_def socketError_def

lemmas task_splits =
  option.splits prod.splits if_splits connect_task.splits promise.splits send_phase.splits
  subscribe_task.splits

lemma closeConnection_frame [simp]:
  "connects (closeConnection st) = connects st"
  "onConnectCallbacks (closeConnection st) = onConnectCallbacks st"
  "createSocketCalls (closeConnection st) = createSocketCalls st"
  "createSocketPromise (closeConnection st) = createSocketPromise st"
  "socket_field (closeConnection st) = socket_field st"
  "onMessageCallbacks (closeConnection st) = onMessageCallbacks st"
  "nextId (closeConnection st) = nextId st"
  "sends (closeConnection st) = sends st"
  "subscriptions (closeConnection st) = subscriptions st"
  "handlerLog (closeConnection st) = handlerLog st"
  "length (sockets (closeConnection st)) = length (sockets st)"
  by (simp_all add: closeConnection_def split: option.splits)

lemma connect_start_frame [simp]:
  "sockets (connect_start k st) = sockets st"
  "socket_field (connect_start k st) = socket_field st"
  "onMessageCallbacks (connect_start k st) = onMessageCallbacks st"
  "nextId (connect_start k st) = nextId st"
  "sends (connect_start k st) = sends st"
  "subscriptions (connect_start k st) = subscriptions st"
  "handlerLog (connect_start k st) = handlerLog st"
  by (simp_all add: connect_start_def waitForConnection_def createSocket_start_def
        split: option.splits)

lemma send_start_effect [simp]:
  "fst (sendAndWaitReply_start msg st) = nextId st"
  "sockets (snd (sendAndWaitReply_start msg st)) = sockets st"
  "socket_field (snd (sendAndWaitReply_start msg st)) = socket_field st"
  "onMessageCallbacks (snd (sendAndWaitReply_start msg st)) = onMessageCallbacks st"
  "nextId (snd (sendAndWaitReply_start msg st)) = nextId st + 2"
  "sends (snd (sendAndWaitReply_start msg st)) =
     (sends st)(nextId st \<mapsto> \<lparr>message = msg, phase = AwaitConnect (nextId st + 1),
                               inner = Pending\<rparr>)"
  "subscriptions (snd (sendAndWaitReply_start msg st)) = subscriptions st"
  "handlerLog (snd (sendAndWaitReply_start msg st)) = handlerLog st"
  by (simp_all add: sendAndWaitReply_start_def Let_def)

lemma subscribe_start_effect [simp]:
  "sockets (subscribeMany_start events st) = sockets st"
  "socket_field (subscribeMany_start events st) = socket_field st"
  "onMessageCallbacks (subscribeMany_start events st) = onMessageCallbacks st"
  "nextId (subscribeMany_start events st) = nextId st + 3"
  "sends (subscribeMany_start events st) =
     (sends st)(nextId st + 1 \<mapsto> \<lparr>message = ''subscribe -e '' @ join events,
                                   phase = AwaitConnect (nextId st + 2), inner = Pending\<rparr>)"
  "subscriptions (subscribeMany_start events st) =
     (subscriptions st)(nextId st \<mapsto> (events, AwaitSubscribeReply (nextId st + 1)))"
  "handlerLog (subscribeMany_start events st) = handlerLog st"
  by (simp_all add: subscribeMany_start_def sendAndWaitReply_start_def Let_def)

lemma send_resume_cases:
  obtains
    (idle) "send_resume c st = st"
  | (sent) call k a where "sends st c = Some call" "phase call = AwaitConnect k"
      "send_resume c st =
         st\<lparr>sockets := (sockets st)[a := socketSend (message call) (sockets st ! a)],
            onMessageCallbacks := onMessageCallbacks st @ [ReplyListener c (message call)],
            sends := (sends st)(c \<mapsto> call\<lparr>phase := Listening\<rparr>)\<rparr>"
  | (failed) call k err where "sends st c = Some call" "phase call = AwaitConnect k"
      "send_resume c st =
         st\<lparr>sends := (sends st)(c \<mapsto> call\<lparr>phase := ExecutorFailed err\<rparr>),
            uncaught := uncaught st @ [err]\<rparr>"
  | (finalized) call where "sends st c = Some call" "phase call = Listening"
      "inner call \<noteq> Pending"
      "send_resume c st =
         st\<lparr>onMessageCallbacks := sweep (ReplyListener c (message call)) (onMessageCallbacks st),
            sends := (sends st)(c \<mapsto> call\<lparr>phase := Finalized\<rparr>)\<rparr>"
proof (cases "sends st c")
  case None
  then show ?thesis using idle by (simp add: send_resume_def)
next
  case (Some call)
  show ?thesis
  proof (cases "phase call")
    case (AwaitConnect k)
    show ?thesis
    proof (cases "connects st k")
      case None
      then show ?thesis using idle Some AwaitConnect by (simp add: send_resume_def)
    next
      case task: (Some t)
      show ?thesis
      proof (cases t)
        case ConnectResolved
        show ?thesis
        proof (cases "socket_field st")
          case None
          then show ?thesis
            using failed [of call k "''TypeError''"] Some AwaitConnect task ConnectResolved
            by (simp add: send_resume_def)
        next
          case sock: (Some a)
          then show ?thesis
            using sent [of call k a] Some AwaitConnect task ConnectResolved
            by (simp add: send_resume_def registerCallback_def)
        qed
      next
        case (ConnectRejected err)
        then show ?thesis
          using failed [of call k err] Some AwaitConnect task by (simp add: send_resume_def)
      qed (use idle Some AwaitConnect task in \<open>simp_all add: send_resume_def\<close>)
    qed
  next
    case Listening
    show ?thesis
    proof (cases "inner call = Pending")
      case True
      then show ?thesis using idle Some Listening by (simp add: send_resume_def)
    next
      case False
      then show ?thesis
        using finalized [of call] Some Listening
        by (simp add: send_resume_def unregisterCallback_sweep)
    qed
  qed (use idle Some in \<open>simp_all add: send_resume_def\<close>)
qed

section \<open>At most one socket\<close>

lemma conn_inv_perform: "conn_inv st \<Longrightarrow> conn_inv (perform c st)"
  by (cases c) (auto simp: conn_inv_def op_defs Let_def split: task_splits)

lemma conn_inv_logs [simp]:
  "conn_inv (st\<lparr>invokedLog := l\<rparr>) = conn_inv st"
  "conn_inv (st\<lparr>handlerLog := h\<rparr>) = conn_inv st"
  "conn_inv (st\<lparr>uncaught := u\<rparr>) = conn_inv st"
  "conn_inv (st\<lparr>connects := t\<rparr>) = conn_inv st"
  by (simp_all add: conn_inv_def)

lemma replyListener_frame [simp]:
  "sockets (replyListener c msg m st) = sockets st"
  "createSocketCalls (replyListener c msg m st) = createSocketCalls st"
  "socket_field (replyListener c msg m st) = socket_field st"
  "createSocketPromise (replyListener c msg m st) = createSocketPromise st"
  "onMessageCallbacks (replyListener c msg m st) = onMessageCallbacks st"
  "onConnectCallbacks (replyListener c msg m st) = onConnectCallbacks st"
  "nextId (replyListener c msg m st) = nextId st"
  "connects (replyListener c msg m st) = connects st"
  "subscriptions (replyListener c msg m st) = subscriptions st"
  "handlerLog (replyListener c msg m st) = handlerLog st"
  "invokedLog (replyListener c msg m st) = invokedLog st"
  "uncaught (replyListener c msg m st) = uncaught st"
  "environment (replyListener c msg m st) = environment st"
  by (simp_all add: replyListener_def settle_def Let_def split: option.splits)

lemma conn_inv_replyListener [simp]: "conn_inv (replyListener c msg m st) = conn_inv st"
  by (simp add: conn_inv_def)

lemma conn_inv_onmessage: "conn_inv st \<Longrightarrow> conn_inv (onmessage app e st)"
  by (rule onmessage_preserves [of conn_inv]) (simp_all add: conn_inv_perform)

lemma conn_inv_onopen: "conn_inv st \<Longrightarrow> conn_inv (onopen app st)"
  by (rule onopen_preserves [of conn_inv]) (simp_all add: conn_inv_perform)

lemma conn_inv_onclose: "conn_inv st \<Longrightarrow> conn_inv (onclose app st)"
  by (rule onclose_preserves [of conn_inv]) (simp_all add: conn_inv_perform)

lemma conn_inv_onerror: "conn_inv st \<Longrightarrow> conn_inv (onerror app st)"
  by (rule onerror_preserves [of conn_inv]) (simp_all add: conn_inv_perform)

lemma conn_inv_readyState:
  "conn_inv st \<Longrightarrow> a < length (sockets st) \<Longrightarrow>
     conn_inv (st\<lparr>sockets := (sockets st)[a := (sockets st ! a)\<lparr>readyState := r\<rparr>]\<rparr>)"
  by (auto simp: conn_inv_def)

lemma conn_inv_step: "conn_inv st \<Longrightarrow> conn_inv (step a st)"
proof (cases a)
  case (Call c)
  assume "conn_inv st"
  then show ?thesis using Call by (simp add: conn_inv_perform)
next
  case (SocketOpen a' app)
  assume "conn_inv st"
  then show ?thesis using SocketOpen
    by (simp add: socketOpen_def conn_inv_onopen conn_inv_readyState)
next
  case (SocketMessage a' e app)
  assume "conn_inv st"
  then show ?thesis using SocketMessage by (simp add: socketMessage_def conn_inv_onmessage)
next
  case (SocketClose a' app)
  assume "conn_inv st"
  then show ?thesis using SocketClose
    by (simp add: socketClose_def conn_inv_onclose conn_inv_readyState)
next
  case (SocketError a' app)
  assume "conn_inv st"
  then show ?thesis using SocketError by (simp add: socketError_def conn_inv_onerror)
qed (auto simp: conn_inv_def op_defs Let_def split: task_splits)

lemma conn_inv_lengths:
  "conn_inv st \<Longrightarrow> length (createSocketCalls st) \<le> 1 \<and> length (sockets st) \<le> 1"
  by (auto simp: conn_inv_def)

lemma length1E: "length xs = Suc 0 \<Longrightarrow> (\<And>x. xs = [x] \<Longrightarrow> P) \<Longrightarrow> P"
  by (cases xs) auto

lemma closeSocket_not_open: "readyState (closeSocket s) = OPEN \<Longrightarrow> readyState s = OPEN"
  by (simp add: closeSocket_def split: if_splits)

lemma closeSocket_connecting:
  "readyState (closeSocket s) = CONNECTING \<Longrightarrow> readyState s = CONNECTING"
  by (simp add: closeSocket_def split: if_splits)


section \<open>Suspended connect calls\<close>

lemma opened_single: "sockets st = [s] \<Longrightarrow> opened st \<longleftrightarrow> readyState s \<noteq> CONNECTING"
  by (simp add: opened_def)

lemma opened_none: "sockets st = [] \<Longrightarrow> \<not> opened st"
  by (simp add: opened_def)

lemma opened_logs [simp]:
  "opened (st\<lparr>invokedLog := l\<rparr>) = opened st"
  "opened (st\<lparr>handlerLog := h\<rparr>) = opened st"
  "opened (st\<lparr>uncaught := u\<rparr>) = opened st"
  "opened (st\<lparr>connects := t\<rparr>) = opened st"
  "opened (replyListener c msg m st) = opened st"
  by (simp_all add: opened_def)

lemma opened_perform:
  assumes c: "conn_inv st" and o: "opened st"
  shows "opened (perform call st)"
proof -
  obtain s where s: "sockets st = [s]" "readyState s \<noteq> CONNECTING"
    using c o by (auto simp: conn_inv_def opened_def elim!: length1E)
  have "readyState (closeSocket s) \<noteq> CONNECTING"
    using s(2) closeSocket_connecting by blast
  then have "opened (closeConnection st)"
    using s by (auto simp: closeConnection_def opened_def split: option.splits)
  moreover have "call \<noteq> CloseConnection \<Longrightarrow> sockets (perform call st) = sockets st"
    by (cases call) (simp_all add: unlisten_def Let_def split: task_splits)
  ultimately show ?thesis using o by (cases "call = CloseConnection") (simp_all add: opened_def)
qed

lemma task_inv_logs [simp]:
  "task_inv (st\<lparr>invokedLog := l\<rparr>) = task_inv st"
  "task_inv (st\<lparr>handlerLog := h\<rparr>) = task_inv st"
  "task_inv (st\<lparr>uncaught := u\<rparr>) = task_inv st"
  "task_inv (replyListener c msg m st) = task_inv st"
  by (simp_all add: task_inv_def opened_def)

lemma task_inv_perform:
  assumes c: "conn_inv st" and t: "task_inv st"
  shows "task_inv (perform call st)"
proof (cases call)
  case Connect
  then show ?thesis using c t
    by (auto simp: task_inv_def conn_inv_def connect_start_def createSocket_start_def
          waitForConnection_def socketIsOpen_def opened_def registerCallback_def less_Suc_eq
          split: option.splits elim!: length1E)
next
  case CloseConnection
  have "opened st \<Longrightarrow> opened (closeConnection st)"
    using opened_perform [OF c, of CloseConnection] by simp
  then show ?thesis using t CloseConnection by (auto simp: task_inv_def)
next
  case (SendAndWaitReply msg)
  then show ?thesis using c t
    by (auto simp: task_inv_def conn_inv_def sendAndWaitReply_start_def Let_def
          connect_start_def createSocket_start_def waitForConnection_def socketIsOpen_def
          opened_def registerCallback_def less_Suc_eq
          split: option.splits elim!: length1E)
next
  case (SubscribeMany events)
  then show ?thesis using c t
    by (auto simp: task_inv_def conn_inv_def subscribeMany_start_def
          sendAndWaitReply_start_def Let_def connect_start_def createSocket_start_def
          waitForConnection_def socketIsOpen_def opened_def registerCallback_def less_Suc_eq
          split: option.splits elim!: length1E)
next
  case (Unlisten s)
  then show ?thesis using c t
    by (auto simp: task_inv_def conn_inv_def unlisten_def sendAndWaitReply_start_def Let_def
          connect_start_def createSocket_start_def waitForConnection_def socketIsOpen_def
          opened_def registerCallback_def less_Suc_eq
          split: option.splits subscribe_task.splits elim!: length1E)
next
  case (UnlistenConnect u)
  then show ?thesis using t
    by (auto simp: task_inv_def opened_def unregisterCallback_sweep sweep_other_mem)
qed (use t in \<open>auto simp: task_inv_def opened_def registerCallback_def\<close>)

lemma conn_task_perform:
  "conn_inv st \<and> task_inv st \<Longrightarrow> conn_inv (perform c st) \<and> task_inv (perform c st)"
  by (simp add: conn_inv_perform task_inv_perform)

lemma task_inv_onmessage:
  assumes "conn_inv st" and "task_inv st"
  shows "task_inv (onmessage app e st)"
proof -
  have "conn_inv (onmessage app e st) \<and> task_inv (onmessage app e st)"
    by (rule onmessage_preserves [of "\<lambda>s. conn_inv s \<and> task_inv s"])
       (use assms in \<open>simp_all add: conn_task_perform\<close>)
  then show ?thesis by simp
qed

lemma task_inv_onclose:
  assumes "conn_inv st" and "task_inv st"
  shows "task_inv (onclose app st)"
proof -
  have "conn_inv (onclose app st) \<and> task_inv (onclose app st)"
    by (rule onclose_preserves [of "\<lambda>s. conn_inv s \<and> task_inv s"])
       (use assms in \<open>simp_all add: conn_task_perform\<close>)
  then show ?thesis by simp
qed

lemma task_inv_onerror:
  assumes "conn_inv st" and "task_inv st"
  shows "task_inv (onerror app st)"
proof -
  have "conn_inv (onerror app st) \<and> task_inv (onerror app st)"
    by (rule onerror_preserves [of "\<lambda>s. conn_inv s \<and> task_inv s"])
       (use assms in \<open>simp_all add: conn_task_perform\<close>)
  then show ?thesis by simp
qed

lemma task_inv_onopen:
  assumes "conn_inv st" and "task_inv st" and "opened st"
  shows "task_inv (onopen app st)"
proof -
  have "conn_inv (onopen app st) \<and> task_inv (onopen app st) \<and> opened (onopen app st)"
  proof (rule onopen_preserves [of "\<lambda>s. conn_inv s \<and> task_inv s \<and> opened s"])
    show "conn_inv st \<and> task_inv st \<and> opened st" using assms by simp
    show "conn_inv (perform c s) \<and> task_inv (perform c s) \<and> opened (perform c s)"
      if "conn_inv s \<and> task_inv s \<and> opened s" for c s
      using that by (simp add: conn_inv_perform task_inv_perform opened_perform)
    show "conn_inv (s\<lparr>uncaught := l\<rparr>) \<and> task_inv (s\<lparr>uncaught := l\<rparr>) \<and> opened (s\<lparr>uncaught := l\<rparr>)"
      if "conn_inv s \<and> task_inv s \<and> opened s" for s l
      using that by simp
    show "conn_inv (s\<lparr>connects := (connects s)(k \<mapsto> OpenNotified)\<rparr>) \<and>
          task_inv (s\<lparr>connects := (connects s)(k \<mapsto> OpenNotified)\<rparr>) \<and>
          opened (s\<lparr>connects := (connects s)(k \<mapsto> OpenNotified)\<rparr>)"
      if "conn_inv s \<and> task_inv s \<and> opened s" "connects s k = Some AwaitOpen" for k s
      using that by (auto simp: task_inv_def)
  qed
  then show ?thesis by simp
qed

lemma task_inv_step:
  assumes c: "conn_inv st" and t: "task_inv st"
  shows "task_inv (step a st)"
proof (cases a)
  case (Call call)
  then show ?thesis using c t by (simp add: task_inv_perform)
next
  case (ResumeCreateSocket p)
  then show ?thesis using c t
    by (auto simp: task_inv_def conn_inv_def createSocket_resume_def opened_def)
next
  case (ResumeConnect k)
  then show ?thesis using c t
    by (auto simp: task_inv_def conn_inv_def connect_resume_def waitForConnection_def
          socketIsOpen_def opened_def registerCallback_def unregisterCallback_sweep
          sweep_other_mem
          split: option.splits connect_task.splits promise.splits elim!: length1E)
next
  case (ResumeSend c')
  then show ?thesis using c t
    by (auto simp: task_inv_def conn_inv_def send_resume_def socketSend_def opened_def
          split: option.splits send_phase.splits connect_task.splits elim!: length1E)
next
  case (ResumeSubscribe s)
  then show ?thesis using t
    by (auto simp: task_inv_def subscribe_resume_def opened_def
          split: option.splits subscribe_task.splits promise.splits)
next
  case (SocketOpen a' app)
  show ?thesis
  proof (cases "a' < length (sockets st) \<and> readyState (sockets st ! a') = CONNECTING")
    case False
    then show ?thesis using t SocketOpen by (auto simp: socketOpen_def)
  next
    case True
    let ?st = "st\<lparr>sockets := (sockets st)[a' := (sockets st ! a')\<lparr>readyState := OPEN\<rparr>]\<rparr>"
    have c': "conn_inv ?st" using c True by (simp add: conn_inv_readyState)
    have o': "opened ?st" using c True by (auto simp: opened_def conn_inv_def elim!: length1E)
    have t': "task_inv ?st" using t o' by (auto simp: task_inv_def)
    show ?thesis using True SocketOpen task_inv_onopen [OF c' t' o']
      by (simp add: socketOpen_def)
  qed
next
  case (SocketMessage a' e app)
  then show ?thesis using c t by (simp add: socketMessage_def task_inv_onmessage)
next
  case (SocketClose a' app)
  show ?thesis
  proof (cases "a' < length (sockets st) \<and> readyState (sockets st ! a') \<noteq> CLOSED")
    case False
    then show ?thesis using t SocketClose by (auto simp: socketClose_def)
  next
    case True
    let ?st = "st\<lparr>sockets := (sockets st)[a' := (sockets st ! a')\<lparr>readyState := CLOSED\<rparr>]\<rparr>"
    have c': "conn_inv ?st" using c True by (simp add: conn_inv_readyState)
    have o': "opened ?st" using c True by (auto simp: opened_def conn_inv_def elim!: length1E)
    have t': "task_inv ?st" using t o' by (auto simp: task_inv_def)
    show ?thesis using True SocketClose task_inv_onclose [OF c' t']
      by (simp add: socketClose_def)
  qed
next
  case (SocketError a' app)
  then show ?thesis using c t by (simp add: socketError_def task_inv_onerror)
qed


section \<open>Listeners of the client\<close>

lemmas listener_simps =
  op_defs callShape_def Let_def registerCallback_def unregisterCallback_sweep
  sweep_other_mem sweep_removes_single less_Suc_eq

lemma callShape_settle [simp]: "callShape (settle c' outcome st) c = callShape st c"
  by (auto simp: callShape_def settle_def split: option.splits)

lemma callShape_replyListener [simp]: "callShape (replyListener c' msg m st) c = callShape st c"
  by (simp add: replyListener_def Let_def)

lemma callShape_logs [simp]:
  "callShape (st\<lparr>invokedLog := l\<rparr>) c = callShape st c"
  "callShape (st\<lparr>handlerLog := h\<rparr>) c = callShape st c"
  "callShape (st\<lparr>uncaught := u\<rparr>) c = callShape st c"
  "callShape (st\<lparr>connects := t\<rparr>) c = callShape st c"
  "callShape (st\<lparr>sockets := ss\<rparr>) c = callShape st c"
  by (simp_all add: callShape_def)

lemma sends_dom_callShape: "sends st c \<noteq> None \<longleftrightarrow> callShape st c \<noteq> None"
  by (simp add: callShape_def)

lemma sub_inv_fresh: "sub_inv st \<Longrightarrow> subscriptions st s = Some x \<Longrightarrow> s < nextId st"
  by (simp add: sub_inv_def)

lemma sub_inv_listener:
  "sub_inv st \<Longrightarrow> SubscribeListener s S \<in> set (onMessageCallbacks st) \<Longrightarrow>
     \<exists>r. subscriptions st s = Some (S, SubscribeActive r)"
  by (simp add: sub_inv_def)

lemma sub_inv_count:
  "sub_inv st \<Longrightarrow> count_list (onMessageCallbacks st) (SubscribeListener s S) \<le> 1"
  by (simp add: sub_inv_def)

lemma reply_inv_fresh: "reply_inv st \<Longrightarrow> sends st c = Some x \<Longrightarrow> c < nextId st"
  by (simp add: reply_inv_def)

lemma reply_inv_listener:
  "reply_inv st \<Longrightarrow> ReplyListener c m \<in> set (onMessageCallbacks st) \<longleftrightarrow>
     callShape st c = Some (m, Listening)"
  by (simp add: reply_inv_def)

lemma reply_inv_count:
  "reply_inv st \<Longrightarrow> count_list (onMessageCallbacks st) (ReplyListener c m) \<le> 1"
  by (simp add: reply_inv_def)

lemma sub_inv_logs [simp]:
  "sub_inv (st\<lparr>invokedLog := l\<rparr>) = sub_inv st"
  "sub_inv (st\<lparr>handlerLog := h\<rparr>) = sub_inv st"
  "sub_inv (st\<lparr>uncaught := u\<rparr>) = sub_inv st"
  "sub_inv (st\<lparr>connects := t\<rparr>) = sub_inv st"
  "sub_inv (st\<lparr>sockets := ss\<rparr>) = sub_inv st"
  "sub_inv (replyListener c msg m st) = sub_inv st"
  by (simp_all add: sub_inv_def)

lemma reply_inv_logs [simp]:
  "reply_inv (st\<lparr>invokedLog := l\<rparr>) = reply_inv st"
  "reply_inv (st\<lparr>handlerLog := h\<rparr>) = reply_inv st"
  "reply_inv (st\<lparr>uncaught := u\<rparr>) = reply_inv st"
  "reply_inv (st\<lparr>connects := t\<rparr>) = reply_inv st"
  "reply_inv (st\<lparr>sockets := ss\<rparr>) = reply_inv st"
  by (simp_all add: reply_inv_def sends_dom_callShape)

lemma replyListener_dom:
  "(sends (replyListener c' msg m st) c = None) = (sends st c = None)"
  using callShape_replyListener [of c' msg m st c]
  by (cases "sends (replyListener c' msg m st) c"; cases "sends st c"; simp add: callShape_def)

lemma replyListener_dom_ex:
  "(\<exists>y. sends (replyListener c' msg m st) c = Some y) = (\<exists>y. sends st c = Some y)"
  by (simp flip: not_None_eq add: replyListener_dom)

lemma reply_inv_replyListener [simp]: "reply_inv (replyListener c msg m st) = reply_inv st"
  by (simp add: reply_inv_def replyListener_dom_ex)

lemma sub_inv_perform:
  assumes inv: "sub_inv st"
  shows "sub_inv (perform c st)"
proof (cases c)
  case (SubscribeMany events)
  have fresh: "SubscribeListener (nextId st) S \<notin> set (onMessageCallbacks st)" for S
    using sub_inv_listener [OF inv, of "nextId st" S] sub_inv_fresh [OF inv, of "nextId st"]
    by auto
  have lt: "subscriptions st s = Some x \<Longrightarrow> s < nextId st + 3" for s x
    using sub_inv_fresh [OF inv, of s x] by simp
  show ?thesis
    unfolding sub_inv_def SubscribeMany
    using fresh lt sub_inv_listener [OF inv] sub_inv_count [OF inv]
    by auto
qed (use inv in \<open>auto simp: sub_inv_def listener_simps intro: count_le_sweep
       dest: set_mp [OF set_sweep_subset] split: task_splits\<close>)

lemma reply_inv_perform: "reply_inv st \<Longrightarrow> reply_inv (perform c st)"
  by (cases c)
     (auto simp: reply_inv_def listener_simps intro: count_le_sweep
        dest: set_mp [OF set_sweep_subset] split: task_splits)

lemma sub_inv_onmessage: "sub_inv st \<Longrightarrow> sub_inv (onmessage app e st)"
  by (rule onmessage_preserves [of sub_inv]) (simp_all add: sub_inv_perform)

lemma sub_inv_onopen: "sub_inv st \<Longrightarrow> sub_inv (onopen app st)"
  by (rule onopen_preserves [of sub_inv]) (simp_all add: sub_inv_perform)

lemma sub_inv_onclose: "sub_inv st \<Longrightarrow> sub_inv (onclose app st)"
  by (rule onclose_preserves [of sub_inv]) (simp_all add: sub_inv_perform)

lemma sub_inv_onerror: "sub_inv st \<Longrightarrow> sub_inv (onerror app st)"
  by (rule onerror_preserves [of sub_inv]) (simp_all add: sub_inv_perform)

lemma reply_inv_onmessage: "reply_inv st \<Longrightarrow> reply_inv (onmessage app e st)"
  by (rule onmessage_preserves [of reply_inv]) (simp_all add: reply_inv_perform)

lemma reply_inv_onopen: "reply_inv st \<Longrightarrow> reply_inv (onopen app st)"
  by (rule onopen_preserves [of reply_inv]) (simp_all add: reply_inv_perform)

lemma reply_inv_onclose: "reply_inv st \<Longrightarrow> reply_inv (onclose app st)"
  by (rule onclose_preserves [of reply_inv]) (simp_all add: reply_inv_perform)

lemma reply_inv_onerror: "reply_inv st \<Longrightarrow> reply_inv (onerror app st)"
  by (rule onerror_preserves [of reply_inv]) (simp_all add: reply_inv_perform)

lemma sub_inv_step:
  assumes inv: "sub_inv st"
  shows "sub_inv (step a st)"
proof (cases a)
  case (Call c)
  then show ?thesis using inv by (simp add: sub_inv_perform)
next
  case (ResumeSubscribe s)
  show ?thesis
  proof (cases "subscriptions st s")
    case None
    then show ?thesis using inv ResumeSubscribe by (simp add: subscribe_resume_def)
  next
    case (Some x)
    obtain events t where x: "x = (events, t)" by (cases x)
    have absent: "t = AwaitSubscribeReply c \<Longrightarrow>
        SubscribeListener s S \<notin> set (onMessageCallbacks st)" for c S
      using sub_inv_listener [OF inv, of s S] Some x by auto
    then have zero: "t = AwaitSubscribeReply c \<Longrightarrow>
        count_list (onMessageCallbacks st) (SubscribeListener s S) = 0" for c S
      by (simp add: count_list_0_iff)
    show ?thesis
      unfolding sub_inv_def ResumeSubscribe
      using Some x absent zero sub_inv_listener [OF inv] sub_inv_count [OF inv]
        sub_inv_fresh [OF inv]
      by (auto simp: subscribe_resume_def registerCallback_def
            split: subscribe_task.splits promise.splits)
  qed
next
  case (SocketOpen a' app)
  then show ?thesis using inv by (auto simp: socketOpen_def sub_inv_onopen)
next
  case (SocketMessage a' e app)
  then show ?thesis using inv by (auto simp: socketMessage_def sub_inv_onmessage)
next
  case (SocketClose a' app)
  then show ?thesis using inv by (auto simp: socketClose_def sub_inv_onclose)
next
  case (SocketError a' app)
  then show ?thesis using inv by (auto simp: socketError_def sub_inv_onerror)
qed (use inv in \<open>auto simp: sub_inv_def listener_simps intro: count_le_sweep
       dest: set_mp [OF set_sweep_subset] split: task_splits\<close>)

lemma reply_inv_step:
  assumes inv: "reply_inv st"
  shows "reply_inv (step a st)"
proof (cases a)
  case (Call c)
  then show ?thesis using inv by (simp add: reply_inv_perform)
next
  case (ResumeSend c)
  show ?thesis
  proof (cases c st rule: send_resume_cases)
    case idle
    then show ?thesis using inv ResumeSend by simp
  next
    case (sent call k a')
    have absent: "ReplyListener c m \<notin> set (onMessageCallbacks st)" for m
      using reply_inv_listener [OF inv, of c m] sent(1,2) by (simp add: callShape_def)
    then have zero: "count_list (onMessageCallbacks st) (ReplyListener c m) = 0" for m
      by (simp add: count_list_0_iff)
    show ?thesis
      unfolding reply_inv_def ResumeSend
      using sent absent zero reply_inv_listener [OF inv] reply_inv_count [OF inv]
        reply_inv_fresh [OF inv]
      by (auto simp: callShape_def)
  next
    case (failed call k err)
    have absent: "ReplyListener c m \<notin> set (onMessageCallbacks st)" for m
      using reply_inv_listener [OF inv, of c m] failed(1,2) by (simp add: callShape_def)
    show ?thesis
      unfolding reply_inv_def ResumeSend
      using failed absent reply_inv_listener [OF inv] reply_inv_count [OF inv]
        reply_inv_fresh [OF inv]
      by (auto simp: callShape_def)
  next
    case (finalized call)
    have only: "ReplyListener c m \<in> set (onMessageCallbacks st) \<longleftrightarrow> m = message call" for m
      using reply_inv_listener [OF inv, of c m] finalized(1,2) by (auto simp: callShape_def)
    have gone: "ReplyListener c m
        \<notin> set (sweep (ReplyListener c (message call)) (onMessageCallbacks st))" for m
    proof (cases "m = message call")
      case True
      then show ?thesis using sweep_removes_single [OF reply_inv_count [OF inv, of c m]] by simp
    next
      case False
      then show ?thesis using only [of m] by (simp add: sweep_other_mem)
    qed
    have other: "c' \<noteq> c \<Longrightarrow>
        ReplyListener c' m \<in> set (sweep (ReplyListener c (message call)) (onMessageCallbacks st))
          \<longleftrightarrow> callShape st c' = Some (m, Listening)" for c' m
      using reply_inv_listener [OF inv, of c' m] by (simp add: sweep_other_mem)
    have cnt: "count_list (sweep (ReplyListener c (message call)) (onMessageCallbacks st)) x \<le> 1"
      if "count_list (onMessageCallbacks st) x \<le> 1" for x
      using that by (rule count_le_sweep)
    show ?thesis
      unfolding reply_inv_def ResumeSend
      using finalized gone other cnt reply_inv_count [OF inv] reply_inv_fresh [OF inv]
      by (auto simp: callShape_def)
  qed
next
  case (SocketOpen a' app)
  then show ?thesis using inv reply_inv_onopen [of _ app] by (auto simp: socketOpen_def)
next
  case (SocketMessage a' e app)
  then show ?thesis using inv by (auto simp: socketMessage_def reply_inv_onmessage)
next
  case (SocketClose a' app)
  then show ?thesis using inv reply_inv_onclose [of _ app] by (auto simp: socketClose_def)
next
  case (SocketError a' app)
  then show ?thesis using inv by (auto simp: socketError_def reply_inv_onerror)
qed (use inv in \<open>auto simp: reply_inv_def listener_simps intro: count_le_sweep
       dest: set_mp [OF set_sweep_subset] split: task_splits\<close>)

section \<open>Reachable states\<close>

lemma run_append: "run st (xs @ ys) = run (run st xs) ys"
  by (simp add: run_def)


lemma wm_inv_init: "wm_inv (init env)"
  by (simp add: wm_inv_def conn_inv_def task_inv_def sub_inv_def reply_inv_def init_def
        callShape_def)

lemma wm_inv_perform: "wm_inv st \<Longrightarrow> wm_inv (perform c st)"
  by (simp add: wm_inv_def conn_inv_perform task_inv_perform sub_inv_perform reply_inv_perform)

lemma wm_inv_onmessage: "wm_inv st \<Longrightarrow> wm_inv (onmessage app e st)"
  by (simp add: wm_inv_def conn_inv_onmessage task_inv_onmessage sub_inv_onmessage
        reply_inv_onmessage)

lemma wm_inv_step: "wm_inv st \<Longrightarrow> wm_inv (step a st)"
  by (simp add: wm_inv_def conn_inv_step task_inv_step sub_inv_step reply_inv_step)

lemma wm_inv_run: "wm_inv st \<Longrightarrow> wm_inv (run st acts)"
  unfolding run_def by (induction acts arbitrary: st) (simp_all add: wm_inv_step)

lemma wm_inv_reachable: "wm_inv (run (init env) acts)"
  by (rule wm_inv_run [OF wm_inv_init])

lemma wm_inv_logs [simp]:
  "wm_inv (st\<lparr>invokedLog := l\<rparr>) = wm_inv st"
  "wm_inv (st\<lparr>handlerLog := h\<rparr>) = wm_inv st"
  "wm_inv (st\<lparr>uncaught := u\<rparr>) = wm_inv st"
  "wm_inv (replyListener c msg m st) = wm_inv st"
  by (simp_all add: wm_inv_def)


section \<open>Subscriptions without a listener\<close>

lemma handlerLog_perform [simp]: "handlerLog (perform c st) = handlerLog st"
  by (cases c) (simp_all add: unlisten_def Let_def split: task_splits)

lemma handlerLog_onopen: "handlerLog (onopen app st) = handlerLog st"
  by (rule onopen_preserves [of "\<lambda>s. handlerLog s = handlerLog st"]) simp_all

lemma handlerLog_onclose: "handlerLog (onclose app st) = handlerLog st"
  by (rule onclose_preserves [of "\<lambda>s. handlerLog s = handlerLog st"]) simp_all

lemma handlerLog_onerror: "handlerLog (onerror app st) = handlerLog st"
  by (rule onerror_preserves [of "\<lambda>s. handlerLog s = handlerLog st"]) simp_all

lemma torn_down_logs [simp]:
  "torn_down s (st\<lparr>invokedLog := l\<rparr>) = torn_down s st"
  "torn_down s (st\<lparr>handlerLog := h\<rparr>) = torn_down s st"
  "torn_down s (st\<lparr>uncaught := u\<rparr>) = torn_down s st"
  "torn_down s (st\<lparr>connects := t\<rparr>) = torn_down s st"
  "torn_down s (st\<lparr>sockets := ss\<rparr>) = torn_down s st"
  "torn_down s (replyListener c msg m st) = torn_down s st"
  by (simp_all add: torn_down_def)

lemma torn_down_perform: "torn_down s st \<Longrightarrow> torn_down s (perform c st)"
  by (cases c)
     (auto simp: torn_down_def listener_simps dest: set_mp [OF set_sweep_subset]
        split: task_splits)

lemma torn_down_step: "torn_down s st \<Longrightarrow> torn_down s (step a st)"
proof (cases a)
  case (Call c)
  assume "torn_down s st"
  then show ?thesis using Call by (simp add: torn_down_perform)
next
  case (SocketOpen a' app)
  assume "torn_down s st"
  then have "torn_down s (onopen app (st\<lparr>sockets := ss\<rparr>))" for ss
    by (intro onopen_preserves [of "torn_down s"]) (simp_all add: torn_down_perform)
  then show ?thesis using SocketOpen \<open>torn_down s st\<close> by (simp add: socketOpen_def)
next
  case (SocketMessage a' e app)
  assume "torn_down s st"
  then have "torn_down s (onmessage app e st)"
    by (intro onmessage_preserves [of "torn_down s"]) (simp_all add: torn_down_perform)
  then show ?thesis using SocketMessage \<open>torn_down s st\<close> by (simp add: socketMessage_def)
next
  case (SocketClose a' app)
  assume "torn_down s st"
  then have "torn_down s (onclose app (st\<lparr>sockets := ss\<rparr>))" for ss
    by (intro onclose_preserves [of "torn_down s"]) (simp_all add: torn_down_perform)
  then show ?thesis using SocketClose \<open>torn_down s st\<close> by (simp add: socketClose_def)
next
  case (SocketError a' app)
  assume "torn_down s st"
  then have "torn_down s (onerror app st)"
    by (intro onerror_preserves [of "torn_down s"]) (simp_all add: torn_down_perform)
  then show ?thesis using SocketError \<open>torn_down s st\<close> by (simp add: socketError_def)
qed (auto simp: torn_down_def listener_simps dest: set_mp [OF set_sweep_subset]
       split: task_splits)

lemma torn_down_run: "torn_down s st \<Longrightarrow> torn_down s (run st acts)"
  unfolding run_def by (induction acts arbitrary: st) (simp_all add: torn_down_step)

lemma invocations_onmessage:
  assumes "torn_down s st"
  shows "invocations s (onmessage app e st) = invocations s st"
proof -
  have "torn_down s (onmessage app e st) \<and> invocations s (onmessage app e st) = invocations s st"
  proof (rule onmessage_preserves
           [of "\<lambda>s'. torn_down s s' \<and> invocations s s' = invocations s st"])
    show "torn_down s (s'\<lparr>handlerLog := handlerLog s' @ [(x, data m)]\<rparr>) \<and>
          invocations s (s'\<lparr>handlerLog := handlerLog s' @ [(x, data m)]\<rparr>) = invocations s st"
      if "torn_down s s' \<and> invocations s s' = invocations s st"
        "SubscribeListener x S \<in> set (onMessageCallbacks s')" for x S m s'
    proof -
      have "x \<noteq> s" using that by (auto simp: torn_down_def)
      then show ?thesis using that(1) by (simp add: invocations_def)
    qed
  qed (use assms in \<open>simp_all add: torn_down_perform invocations_def\<close>)
  then show ?thesis by simp
qed

lemma invocations_step: "torn_down s st \<Longrightarrow> invocations s (step a st) = invocations s st"
proof (cases a)
  case (SocketMessage a' e app)
  assume "torn_down s st"
  then show ?thesis using SocketMessage
    by (simp add: socketMessage_def invocations_onmessage)
qed (auto simp: invocations_def op_defs event_defs Let_def handlerLog_onopen handlerLog_onclose
       handlerLog_onerror split: task_splits)

lemma invocations_run: "torn_down s st \<Longrightarrow> invocations s (run st acts) = invocations s st"
proof (induction acts arbitrary: st)
  case Nil
  show ?case by (simp add: run_def)
next
  case (Cons a acts)
  have "invocations s (run (step a st) acts) = invocations s (step a st)"
    using Cons.IH [OF torn_down_step [OF Cons.prems]] .
  then show ?case using invocations_step [OF Cons.prems] by (simp add: run_def)
qed

lemma unlisten_torn_down:
  assumes inv: "sub_inv st" and sub: "subscriptions st s = Some (S, SubscribeActive r)"
  shows "torn_down s (unlisten s st)"
proof -
  let ?reg = "sweep (SubscribeListener s S) (onMessageCallbacks st)"
  have only: "SubscribeListener s S' \<in> set (onMessageCallbacks st) \<Longrightarrow> S' = S" for S'
    using sub_inv_listener [OF inv, of s S'] sub by auto
  have gone: "SubscribeListener s S' \<notin> set ?reg" for S'
  proof (cases "S' = S")
    case True
    then show ?thesis using sweep_removes_single [OF sub_inv_count [OF inv, of s S]] by simp
  next
    case False
    then show ?thesis
      using only [of S'] set_sweep_subset [of "SubscribeListener s S" "onMessageCallbacks st"]
      by auto
  qed
  have lt: "s < nextId st" using sub_inv_fresh [OF inv sub] .
  show ?thesis
    unfolding torn_down_def using gone lt sub
    by (cases r) (simp_all add: unlisten_def unregisterCallback_sweep)
qed

lemma subscribe_rejected_torn_down:
  assumes inv: "sub_inv st" and sub: "subscriptions st s = Some (S, AwaitSubscribeReply c)"
    and rej: "returned st c = Rejected err"
  shows "torn_down s (subscribe_resume s st)"
proof -
  have "SubscribeListener s S' \<notin> set (onMessageCallbacks st)" for S'
    using sub_inv_listener [OF inv, of s S'] sub by auto
  then show ?thesis
    unfolding torn_down_def using sub rej sub_inv_fresh [OF inv sub]
    by (simp add: subscribe_resume_def)
qed

section \<open>Waiting for a socket that was closed\<close>

lemma never_opens_logs [simp]:
  "never_opens k (st\<lparr>invokedLog := l\<rparr>) = never_opens k st"
  "never_opens k (st\<lparr>handlerLog := h\<rparr>) = never_opens k st"
  "never_opens k (st\<lparr>uncaught := u\<rparr>) = never_opens k st"
  "never_opens k (replyListener c msg m st) = never_opens k st"
  by (simp_all add: never_opens_def)

lemma never_opens_perform: "never_opens k st \<Longrightarrow> never_opens k (perform c st)"
  by (cases c)
     (auto simp: never_opens_def op_defs Let_def closeSocket_def registerCallback_def
        less_Suc_eq split: task_splits)

lemma never_opens_step: "never_opens k st \<Longrightarrow> never_opens k (step a st)"
proof (cases a)
  case (Call c)
  assume "never_opens k st"
  then show ?thesis using Call by (simp add: never_opens_perform)
next
  case (SocketOpen a' app)
  assume "never_opens k st"
  then show ?thesis using SocketOpen by (auto simp: never_opens_def socketOpen_def)
next
  case (SocketMessage a' e app)
  assume "never_opens k st"
  then have "never_opens k (onmessage app e st)"
    by (intro onmessage_preserves [of "never_opens k"]) (simp_all add: never_opens_perform)
  then show ?thesis using SocketMessage \<open>never_opens k st\<close> by (simp add: socketMessage_def)
next
  case (SocketClose a' app)
  assume no: "never_opens k st"
  show ?thesis
  proof (cases "a' < length (sockets st) \<and> readyState (sockets st ! a') \<noteq> CLOSED")
    case False
    then show ?thesis using no SocketClose by (auto simp: socketClose_def)
  next
    case True
    let ?st = "st\<lparr>sockets := (sockets st)[a' := (sockets st ! a')\<lparr>readyState := CLOSED\<rparr>]\<rparr>"
    have "never_opens k ?st" using no True by (auto simp: never_opens_def)
    then have "never_opens k (onclose app ?st)"
      by (intro onclose_preserves [of "never_opens k"]) (simp_all add: never_opens_perform)
    then show ?thesis using True SocketClose by (simp add: socketClose_def)
  qed
next
  case (SocketError a' app)
  assume "never_opens k st"
  then have "never_opens k (onerror app st)"
    by (intro onerror_preserves [of "never_opens k"]) (simp_all add: never_opens_perform)
  then show ?thesis using SocketError \<open>never_opens k st\<close> by (simp add: socketError_def)
qed (auto simp: never_opens_def op_defs Let_def closeSocket_def socketSend_def
       registerCallback_def less_Suc_eq split: task_splits)

lemma never_opens_run: "never_opens k st \<Longrightarrow> never_opens k (run st acts)"
  unfolding run_def by (induction acts arbitrary: st) (simp_all add: never_opens_step)

lemma close_then_connect:
  assumes c: "conn_inv st" and f: "socket_field st \<noteq> None"
  shows "never_opens (nextId st) (step (Call Connect) (closeConnection st)) \<and>
         sockets (step (Call Connect) (closeConnection st)) = sockets (closeConnection st) \<and>
         createSocketCalls (step (Call Connect) (closeConnection st)) = createSocketCalls st"
proof -
  obtain s where s: "sockets st = [s]" "socket_field st = Some 0"
    "createSocketCalls st = [Fulfilled 0]" "createSocketPromise st = Some 0"
    using c f by (auto simp: conn_inv_def elim!: length1E)
  have cl: "closeConnection st = st\<lparr>sockets := [closeSocket s]\<rparr>"
    using s by (simp add: closeConnection_def)
  have rs: "readyState (closeSocket s) = CLOSING \<or> readyState (closeSocket s) = CLOSED"
    by (simp add: closeSocket_def)
  show ?thesis
    unfolding cl using s rs
    by (auto simp: never_opens_def connect_start_def waitForConnection_def socketIsOpen_def)
qed

text \<open>A property of one call that only its own continuation and its own listener change.\<close>

lemma phase_replyListener:
  "sends st c = Some call \<Longrightarrow>
     \<exists>call'. sends (replyListener c' msg m st) c = Some call' \<and> phase call' = phase call \<and>
             message call' = message call"
  using callShape_replyListener [of c' msg m st c] by (auto simp: callShape_def)

lemma executor_failed_logs [simp]:
  "executor_failed c (st\<lparr>invokedLog := l\<rparr>) = executor_failed c st"
  "executor_failed c (st\<lparr>handlerLog := h\<rparr>) = executor_failed c st"
  "executor_failed c (st\<lparr>uncaught := u\<rparr>) = executor_failed c st"
  "executor_failed c (st\<lparr>connects := t\<rparr>) = executor_failed c st"
  "executor_failed c (st\<lparr>sockets := ss\<rparr>) = executor_failed c st"
  by (simp_all add: executor_failed_def)

lemma executor_failed_replyListener:
  "executor_failed c st \<Longrightarrow> executor_failed c (replyListener c' msg m st)"
  using phase_replyListener [of st c _ c' msg m] by (fastforce simp: executor_failed_def)

lemma executor_failed_perform: "executor_failed c st \<Longrightarrow> executor_failed c (perform call st)"
  by (cases call)
     (auto simp: executor_failed_def op_defs Let_def less_Suc_eq split: task_splits)

lemma executor_failed_step:
  assumes ef: "executor_failed c st"
  shows "executor_failed c (step a st)"
proof (cases a)
  case (Call call)
  then show ?thesis using ef by (simp add: executor_failed_perform)
next
  case (SocketOpen a' app)
  have "executor_failed c (onopen app (st\<lparr>sockets := ss\<rparr>))" for ss
    by (rule onopen_preserves [of "executor_failed c"])
       (use ef in \<open>simp_all add: executor_failed_perform\<close>)
  then show ?thesis using SocketOpen ef by (simp add: socketOpen_def)
next
  case (SocketMessage a' e app)
  have "executor_failed c (onmessage app e st)"
    by (rule onmessage_preserves [of "executor_failed c"])
       (use ef in \<open>simp_all add: executor_failed_perform executor_failed_replyListener\<close>)
  then show ?thesis using SocketMessage ef by (simp add: socketMessage_def)
next
  case (SocketClose a' app)
  have "executor_failed c (onclose app (st\<lparr>sockets := ss\<rparr>))" for ss
    by (rule onclose_preserves [of "executor_failed c"])
       (use ef in \<open>simp_all add: executor_failed_perform\<close>)
  then show ?thesis using SocketClose ef by (simp add: socketClose_def)
next
  case (SocketError a' app)
  have "executor_failed c (onerror app st)"
    by (rule onerror_preserves [of "executor_failed c"])
       (use ef in \<open>simp_all add: executor_failed_perform\<close>)
  then show ?thesis using SocketError ef by (simp add: socketError_def)
qed (use ef in \<open>auto simp: executor_failed_def op_defs Let_def less_Suc_eq
       split: task_splits\<close>)

lemma executor_failed_run: "executor_failed c st \<Longrightarrow> executor_failed c (run st acts)"
  unfolding run_def by (induction acts arbitrary: st) (simp_all add: executor_failed_step)

lemma executor_failed_pending: "executor_failed c st \<Longrightarrow> returned st c = Pending"
  by (auto simp: executor_failed_def returned_def)

lemma waits_forever_logs [simp]:
  "waits_forever c k (st\<lparr>invokedLog := l\<rparr>) = waits_forever c k st"
  "waits_forever c k (st\<lparr>handlerLog := h\<rparr>) = waits_forever c k st"
  "waits_forever c k (st\<lparr>uncaught := u\<rparr>) = waits_forever c k st"
  by (simp_all add: waits_forever_def)

lemma waits_forever_replyListener:
  "waits_forever c k st \<Longrightarrow> waits_forever c k (replyListener c' msg m st)"
  using phase_replyListener [of st c _ c' msg m] by (fastforce simp: waits_forever_def)

lemma waits_forever_perform:
  assumes wf: "waits_forever c k st"
  shows "waits_forever c k (perform call st)"
proof -
  have no: "never_opens k st" using wf by (simp add: waits_forever_def)
  obtain x where x: "sends st c = Some x" "phase x = AwaitConnect k"
    using wf by (auto simp: waits_forever_def)
  have lt: "c < nextId st" using wf by (simp add: waits_forever_def)
  have "(\<exists>call'. sends (perform call st) c = Some call' \<and> phase call' = AwaitConnect k) \<and>
        c < nextId (perform call st)"
    using x lt by (cases call) (auto simp: op_defs Let_def split: task_splits)
  then show ?thesis using never_opens_perform [OF no, of call] by (simp add: waits_forever_def)
qed

lemma waits_forever_step:
  assumes wf: "waits_forever c k st"
  shows "waits_forever c k (step a st)"
proof (cases a)
  case (Call call)
  then show ?thesis using wf by (simp add: waits_forever_perform)
next
  case (SocketOpen a' app)
  then show ?thesis using wf by (auto simp: waits_forever_def never_opens_def socketOpen_def)
next
  case (SocketMessage a' e app)
  have "waits_forever c k (onmessage app e st)"
    by (rule onmessage_preserves [of "waits_forever c k"])
       (use wf in \<open>simp_all add: waits_forever_perform waits_forever_replyListener\<close>)
  then show ?thesis using SocketMessage wf by (simp add: socketMessage_def)
next
  case (SocketClose a' app)
  show ?thesis
  proof (cases "a' < length (sockets st) \<and> readyState (sockets st ! a') \<noteq> CLOSED")
    case False
    then show ?thesis using wf SocketClose by (auto simp: socketClose_def)
  next
    case True
    let ?st = "st\<lparr>sockets := (sockets st)[a' := (sockets st ! a')\<lparr>readyState := CLOSED\<rparr>]\<rparr>"
    have "waits_forever c k ?st" using wf True by (auto simp: waits_forever_def never_opens_def)
    then have "waits_forever c k (onclose app ?st)"
      by (intro onclose_preserves [of "waits_forever c k"]) (simp_all add: waits_forever_perform)
    then show ?thesis using True SocketClose by (simp add: socketClose_def)
  qed
next
  case (SocketError a' app)
  have "waits_forever c k (onerror app st)"
    by (rule onerror_preserves [of "waits_forever c k"])
       (use wf in \<open>simp_all add: waits_forever_perform\<close>)
  then show ?thesis using SocketError wf by (simp add: socketError_def)
next
  case (ResumeCreateSocket p)
  then show ?thesis using wf
    by (auto simp: waits_forever_def never_opens_def createSocket_resume_def)
next
  case (ResumeConnect k')
  then show ?thesis using wf never_opens_step [of k st "ResumeConnect k'"]
    by (auto simp: waits_forever_def connect_resume_def waitForConnection_def
          split: task_splits)
next
  case (ResumeSend c')
  then show ?thesis using wf never_opens_step [of k st "ResumeSend c'"]
    by (auto simp: waits_forever_def never_opens_def send_resume_def split: task_splits)
next
  case (ResumeSubscribe s)
  then show ?thesis using wf never_opens_step [of k st "ResumeSubscribe s"]
    by (auto simp: waits_forever_def subscribe_resume_def split: task_splits)
qed

lemma waits_forever_run: "waits_forever c k st \<Longrightarrow> waits_forever c k (run st acts)"
  unfolding run_def by (induction acts arbitrary: st) (simp_all add: waits_forever_step)

lemma waits_forever_pending: "waits_forever c k st \<Longrightarrow> returned st c = Pending"
  by (auto simp: waits_forever_def returned_def)

lemma no_transport_perform: "no_transport st \<Longrightarrow> no_transport (perform c st)"
  by (cases c)
     (auto simp: no_transport_def op_defs Let_def
        dest: set_update_subset_insert [THEN subsetD] nth_mem split: task_splits)

lemma no_transport_step: "no_transport st \<Longrightarrow> no_transport (step a st)"
proof (cases a)
  case (Call c)
  assume "no_transport st"
  then show ?thesis using Call by (simp add: no_transport_perform)
qed (auto simp: no_transport_def op_defs event_defs Let_def
       dest: set_update_subset_insert [THEN subsetD] nth_mem split: task_splits)

lemma no_transport_run: "no_transport st \<Longrightarrow> no_transport (run st acts)"
  unfolding run_def by (induction acts arbitrary: st) (simp_all add: no_transport_step)

lemma no_transport_pending: "no_transport st \<Longrightarrow> returned st c = Pending"
  by (auto simp: no_transport_def returned_def split: option.splits)

lemma no_transport_init: "no_transport (init NoWebSocket)"
  by (simp add: no_transport_def init_def)


section \<open>Entries ahead of a listener\<close>

lemma ahead_less: "cb \<in> set cbs \<Longrightarrow> ahead cb cbs < length cbs"
  unfolding ahead_def by (induction cbs) auto

lemma ahead_nth: "cb \<in> set cbs \<Longrightarrow> cbs ! ahead cb cbs = cb"
  unfolding ahead_def by (induction cbs) auto

lemma ahead_before: "j < ahead cb cbs \<Longrightarrow> cbs ! j \<noteq> cb"
  unfolding ahead_def using nth_mem set_takeWhileD takeWhile_nth by fastforce

lemma perform_extends:
  "\<not> unregistersMessage c \<Longrightarrow>
     \<exists>extra. onMessageCallbacks (perform c st) = onMessageCallbacks st @ extra"
  by (cases c) (simp_all add: registerCallback_def)

lemma fold_perform_extends:
  "list_all (\<lambda>c. \<not> unregistersMessage c) cs \<Longrightarrow>
     \<exists>extra. onMessageCallbacks (fold perform cs st) = onMessageCallbacks st @ extra"
proof (induction cs arbitrary: st)
  case Nil
  show ?case by simp
next
  case (Cons c cs)
  obtain e1 where e1: "onMessageCallbacks (perform c st) = onMessageCallbacks st @ e1"
    using Cons.prems perform_extends [of c st] by auto
  obtain e2 where "onMessageCallbacks (fold perform cs (perform c st))
                     = onMessageCallbacks (perform c st) @ e2"
    using Cons.IH [of "perform c st"] Cons.prems by auto
  then show ?case using e1 by simp
qed

lemma runApp_extends:
  "calm r \<Longrightarrow> runApp r st = (x, st') \<Longrightarrow>
     x = None \<and> (\<exists>extra. onMessageCallbacks st' = onMessageCallbacks st @ extra)"
  using fold_perform_extends [of "calls r" st] by (auto simp: runApp_def calm_def)

lemma invokeMessage_extends:
  assumes "calm r" and "invokeMessage cb r (Envelope m) st = (x, st')"
  shows "x = None \<and> (\<exists>extra. onMessageCallbacks st' = onMessageCallbacks st @ extra)"
proof (cases cb)
  case (ReplyListener c msg)
  then show ?thesis using assms(2) by auto
next
  case (SubscribeListener s S)
  show ?thesis
  proof (cases "isSubscribedEvent m S")
    case True
    then show ?thesis
      using assms(2) SubscribeListener
        runApp_extends [OF assms(1), of "st\<lparr>handlerLog := handlerLog st @ [(s, data m)]\<rparr>" x st']
      by (simp add: subscribeListener_def)
  next
    case False
    then show ?thesis using assms(2) SubscribeListener by (simp add: subscribeListener_def)
  qed
next
  case (UserMessageCallback u)
  then show ?thesis using assms runApp_extends [of r st x st'] by simp
qed

section \<open>Replies\<close>

lemma replyListener_sends:
  "sends (replyListener c' msg m st) c =
     (if c = c' then
        (case sends st c of
           None \<Rightarrow> None
         | Some call \<Rightarrow>
             Some (if messageType m = Some ''client_response'' \<and> clientMessage m = Some msg \<and>
                      inner call = Pending
                   then call\<lparr>inner := replyOutcome m msg\<rparr> else call))
      else sends st c)"
  by (auto simp: replyListener_def settle_def replyOutcome_def truthy_def isReplyMessage_def
        Let_def split: option.splits)

lemma sends_perform:
  "reply_inv st \<Longrightarrow> sends st c = Some call \<Longrightarrow> sends (perform x st) c = Some call"
  using reply_inv_fresh [of st c call]
  by (cases x) (auto simp: unlisten_def Let_def split: task_splits)

lemma sends_runApp:
  assumes "reply_inv st" and "sends st c = Some call"
  shows "reply_inv (snd (runApp r st)) \<and> sends (snd (runApp r st)) c = Some call"
  by (rule runApp_preserves [of "\<lambda>s. reply_inv s \<and> sends s c = Some call"])
     (use assms in \<open>simp_all add: reply_inv_perform sends_perform\<close>)

text \<open>
  One callback leaves a call as it is, unless it is the listener of the call on a reply
  that matches the call while it is pending.
\<close>

lemma invokeMessage_keeps:
  assumes inv: "reply_inv st" and call: "sends st c = Some call"
    and mem: "cb \<in> set (onMessageCallbacks st)"
    and keep: "\<And>m. cb = ReplyListener c (message call) \<Longrightarrow> e = Envelope m \<Longrightarrow>
                 messageType m \<noteq> Some ''client_response'' \<or>
                 clientMessage m \<noteq> Some (message call) \<or> inner call \<noteq> Pending"
  shows "reply_inv (snd (invokeMessage cb r e (st\<lparr>invokedLog := l\<rparr>))) \<and>
         sends (snd (invokeMessage cb r e (st\<lparr>invokedLog := l\<rparr>))) c = Some call"
proof (cases cb)
  case (ReplyListener c' msg)
  have own: "msg = message call" if "c' = c"
    using reply_inv_listener [OF inv, of c msg] mem ReplyListener that call
    by (simp add: callShape_def)
  show ?thesis
  proof (cases e)
    case (Envelope m)
    have "sends (replyListener c' msg m (st\<lparr>invokedLog := l\<rparr>)) c = Some call"
    proof (cases "c' = c")
      case True
      then show ?thesis
        using keep [of m] own ReplyListener Envelope call by (auto simp: replyListener_sends)
    next
      case False
      then show ?thesis using call by (simp add: replyListener_sends)
    qed
    then show ?thesis using ReplyListener Envelope inv by simp
  qed (use ReplyListener inv call in simp_all)
next
  case (SubscribeListener s S)
  show ?thesis
  proof (cases e)
    case (Envelope m)
    show ?thesis
      using SubscribeListener Envelope inv call
        sends_runApp [of "st\<lparr>invokedLog := l, handlerLog := handlerLog st @ [(s, data m)]\<rparr>" c call r]
      by (simp add: subscribeListener_def)
  qed (use SubscribeListener inv call in simp_all)
next
  case (UserMessageCallback u)
  then show ?thesis
    using inv call sends_runApp [of "st\<lparr>invokedLog := l\<rparr>" c call r] by simp
qed

lemma onmessage_other:
  assumes inv: "reply_inv st" and call: "sends st c = Some call"
    and other: "\<And>m. e = Envelope m \<Longrightarrow>
                  messageType m \<noteq> Some ''client_response'' \<or>
                  clientMessage m \<noteq> Some (message call) \<or>
                  phase call \<noteq> Listening \<or> inner call \<noteq> Pending"
  shows "sends (onmessage app e st) c = Some call"
proof -
  have "reply_inv (onmessage app e st) \<and> sends (onmessage app e st) c = Some call"
    unfolding onmessage_def
  proof (rule forEach_preserves [of "\<lambda>s. reply_inv s \<and> sends s c = Some call"])
    show "reply_inv st \<and> sends st c = Some call" using inv call by simp
    show "reply_inv (s\<lparr>uncaught := l\<rparr>) \<and> sends (s\<lparr>uncaught := l\<rparr>) c = Some call"
      if "reply_inv s \<and> sends s c = Some call" for s l
      using that by simp
    show "reply_inv (snd (invokeMessage (onMessageCallbacks s ! j) (app j) e
                       (s\<lparr>invokedLog := invokedLog s @ [onMessageCallbacks s ! j]\<rparr>))) \<and>
          sends (snd (invokeMessage (onMessageCallbacks s ! j) (app j) e
                       (s\<lparr>invokedLog := invokedLog s @ [onMessageCallbacks s ! j]\<rparr>))) c = Some call"
      if P: "reply_inv s \<and> sends s c = Some call" and j: "j < length (onMessageCallbacks s)"
      for j s
    proof (rule invokeMessage_keeps)
      show "reply_inv s" "sends s c = Some call" using P by simp_all
      show "onMessageCallbacks s ! j \<in> set (onMessageCallbacks s)" using j by simp
      show "messageType m \<noteq> Some ''client_response'' \<or>
            clientMessage m \<noteq> Some (message call) \<or> inner call \<noteq> Pending"
        if "onMessageCallbacks s ! j = ReplyListener c (message call)" "e = Envelope m" for m
      proof -
        have "ReplyListener c (message call) \<in> set (onMessageCallbacks s)"
          using that(1) j nth_mem by metis
        then have "phase call = Listening"
          using reply_inv_listener [of s c "message call"] P by (simp add: callShape_def)
        then show ?thesis using other [OF that(2)] by auto
      qed
    qed
  qed
  then show ?thesis by simp
qed

lemma replyOutcome_settled: "replyOutcome m msg \<noteq> Pending"
  by (simp add: replyOutcome_def split: option.splits)

text \<open>
  The listener of a pending call is reached, and settles the call on a matching reply, when
  the application code ahead of it returns and unregisters no message callback.
\<close>

lemma onmessage_settles:
  assumes inv: "reply_inv st" and call: "sends st c = Some call"
    and ph: "phase call = Listening" and pend: "inner call = Pending"
    and mt: "messageType m = Some ''client_response''"
    and cm: "clientMessage m = Some (message call)"
    and calm: "\<forall>k < ahead (ReplyListener c (message call)) (onMessageCallbacks st). calm (app k)"
  shows "sends (onmessage app (Envelope m) st) c
           = Some (call\<lparr>inner := replyOutcome m (message call)\<rparr>)"
proof -
  let ?L = "ReplyListener c (message call)"
  let ?reg0 = "onMessageCallbacks st"
  let ?p = "ahead ?L ?reg0"
  let ?done = "call\<lparr>inner := replyOutcome m (message call)\<rparr>"
  let ?f = "\<lambda>k callback s. invokeMessage callback (app k) (Envelope m)
                               (s\<lparr>invokedLog := invokedLog s @ [callback]\<rparr>)"
  have mem: "?L \<in> set ?reg0"
    using reply_inv_listener [OF inv, of c "message call"] call ph by (simp add: callShape_def)
  have p: "?p < length ?reg0" "?reg0 ! ?p = ?L"
    using mem by (simp_all add: ahead_less ahead_nth)
  define I where "I = (\<lambda>j s. reply_inv s \<and>
      (if j \<le> ?p then sends s c = Some call \<and> (\<exists>extra. onMessageCallbacks s = ?reg0 @ extra)
       else sends s c = Some ?done))"
  have late: "reply_inv (snd (?f j (onMessageCallbacks s ! j) s)) \<and>
              sends (snd (?f j (onMessageCallbacks s ! j) s)) c = Some ?done"
    if "reply_inv s" "sends s c = Some ?done" "j < length (onMessageCallbacks s)" for j s
    by (rule invokeMessage_keeps)
       (use that replyOutcome_settled in \<open>simp_all\<close>)
  have early: "x = None \<and> reply_inv s' \<and> sends s' c = Some call \<and>
               (\<exists>extra. onMessageCallbacks s' = ?reg0 @ extra)"
    if "reply_inv s" "sends s c = Some call" "onMessageCallbacks s = ?reg0 @ extra" "j < ?p"
      "?f j (onMessageCallbacks s ! j) s = (x, s')" for j s s' x extra
  proof -
    have nth: "onMessageCallbacks s ! j = ?reg0 ! j" using that(3,4) p(1) by (simp add: nth_append)
    have ne: "onMessageCallbacks s ! j \<noteq> ?L" using ahead_before [OF that(4)] nth by simp
    have jl: "j < length (onMessageCallbacks s)" using that(3,4) p(1) by simp
    have keeps: "reply_inv (snd (?f j (onMessageCallbacks s ! j) s)) \<and>
                 sends (snd (?f j (onMessageCallbacks s ! j) s)) c = Some call"
      by (rule invokeMessage_keeps) (use that(1,2) jl ne in simp_all)
    have "calm (app j)" using calm that(4) by simp
    then have "x = None \<and> (\<exists>extra'. onMessageCallbacks s' = onMessageCallbacks s @ extra')"
      using invokeMessage_extends [OF _ that(5)] by simp
    then show ?thesis using keeps that(3,5) by auto
  qed
  have here: "?f ?p (onMessageCallbacks s ! ?p) s = (None, s') \<Longrightarrow>
              reply_inv s' \<and> sends s' c = Some ?done"
    if "reply_inv s" "sends s c = Some call" "onMessageCallbacks s = ?reg0 @ extra"
    for s s' extra
  proof -
    assume r: "?f ?p (onMessageCallbacks s ! ?p) s = (None, s')"
    have nth: "onMessageCallbacks s ! ?p = ?L" using that(3) p by (simp add: nth_append)
    have "s' = replyListener c (message call) m (s\<lparr>invokedLog := invokedLog s @ [?L]\<rparr>)"
      using r unfolding nth by simp
    then show ?thesis using that(1,2) mt cm pend by (simp add: replyListener_sends)
  qed
  have "sends (forEach onMessageCallbacks ?f (length ?reg0) 0 st) c = Some ?done"
  proof (rule forEach_rule [where I = I and R = "\<lambda>s. sends s c = Some ?done"])
    show "I 0 st" using inv call by (simp add: I_def)
  next
    fix j s s'
    assume I: "I j s" and j: "j < length (onMessageCallbacks s)"
      and r: "?f j (onMessageCallbacks s ! j) s = (None, s')"
    show "I (Suc j) s'"
    proof (cases "j < ?p")
      case True
      then obtain extra where "reply_inv s" "sends s c = Some call"
        "onMessageCallbacks s = ?reg0 @ extra"
        using I by (auto simp: I_def)
      then show ?thesis using early [OF _ _ _ True r] True by (simp add: I_def)
    next
      case False
      show ?thesis
      proof (cases "j = ?p")
        case True
        then obtain extra where "reply_inv s" "sends s c = Some call"
          "onMessageCallbacks s = ?reg0 @ extra"
          using I by (auto simp: I_def)
        then show ?thesis using here [of s extra s'] r True by (simp add: I_def)
      next
        case ne: False
        then have "reply_inv s" "sends s c = Some ?done" using I False by (simp_all add: I_def)
        then show ?thesis using late [OF _ _ j] r False ne by (simp add: I_def)
      qed
    qed
  next
    fix j s s' err
    assume I: "I j s" and j: "j < length (onMessageCallbacks s)"
      and r: "?f j (onMessageCallbacks s ! j) s = (Some err, s')"
    show "sends (s'\<lparr>uncaught := uncaught s' @ [err]\<rparr>) c = Some ?done"
    proof (cases "j < ?p")
      case True
      then obtain extra where "reply_inv s" "sends s c = Some call"
        "onMessageCallbacks s = ?reg0 @ extra"
        using I by (auto simp: I_def)
      then show ?thesis using early [OF _ _ _ True r] by simp
    next
      case False
      show ?thesis
      proof (cases "j = ?p")
        case True
        then obtain extra where e: "onMessageCallbacks s = ?reg0 @ extra"
          using I by (auto simp: I_def)
        have "onMessageCallbacks s ! ?p = ?L" using e p by (simp add: nth_append)
        then show ?thesis using r True by simp
      next
        case ne: False
        then have "reply_inv s" "sends s c = Some ?done" using I False by (simp_all add: I_def)
        then show ?thesis using late [OF _ _ j] r by simp
      qed
    qed
  next
    fix j s
    assume I: "I j s" and j: "\<not> j < length (onMessageCallbacks s)"
    have "\<not> j \<le> ?p"
    proof
      assume "j \<le> ?p"
      then obtain extra where "onMessageCallbacks s = ?reg0 @ extra" using I by (auto simp: I_def)
      then show False using j p(1) \<open>j \<le> ?p\<close> by simp
    qed
    then show "I (Suc j) s" using I by (simp add: I_def)
  next
    fix s
    assume "I (0 + length ?reg0) s"
    then show "sends s c = Some ?done" using p(1) by (simp add: I_def)
  qed
  then show ?thesis by (simp add: onmessage_def)
qed

lemma send_resume_settled:
  "sends st c = Some call \<Longrightarrow> phase call = Listening \<Longrightarrow> inner call \<noteq> Pending \<Longrightarrow>
     returned (send_resume c st) c = inner call"
  by (simp add: send_resume_def returned_def)


lemma errorReason_includes: "\<exists>pre mid. errorReason msg e = pre @ msg @ mid @ e"
  unfolding errorReason_def by (metis append.assoc)


section \<open>Handler calls\<close>




lemma invokedLog_perform [simp]: "invokedLog (perform c st) = invokedLog st"
  by (cases c) (simp_all add: op_defs Let_def split: task_splits)

lemma uncaught_perform [simp]: "uncaught (perform c st) = uncaught st"
  by (cases c) (simp_all add: op_defs Let_def split: task_splits)

lemma runApp_logs [simp]:
  "handlerLog (snd (runApp r st)) = handlerLog st"
  "invokedLog (snd (runApp r st)) = invokedLog st"
  "uncaught (snd (runApp r st)) = uncaught st"
  by (rule runApp_preserves [of "\<lambda>s. handlerLog s = handlerLog st"], simp_all,
      rule runApp_preserves [of "\<lambda>s. invokedLog s = invokedLog st"], simp_all,
      rule runApp_preserves [of "\<lambda>s. uncaught s = uncaught st"], simp_all)
















section \<open>The open event\<close>
















section \<open>Undecodable payloads\<close>

lemma invokeMessage_undecodable:
  assumes "e = SyntaxError \<or> e = JsonNull"
  shows "invokeMessage cb r e st =
           (if isUserCallback cb then runApp r st
            else (Some (if e = SyntaxError then ''SyntaxError'' else ''TypeError''), st))"
  using assms by (cases cb) auto

lemma handlerLog_undecodable:
  assumes e: "e = SyntaxError \<or> e = JsonNull"
  shows "handlerLog (onmessage app e st) = handlerLog st"
  unfolding onmessage_def
  by (rule forEach_preserves [of "\<lambda>s. handlerLog s = handlerLog st"])
     (simp_all add: invokeMessage_undecodable [OF e])

text \<open>
  Every listener of the client throws on such a payload, so a pass calls callbacks of the
  application and then at most one listener of the client, which ends it.
\<close>

lemma invokedLog_undecodable:
  assumes e: "e = SyntaxError \<or> e = JsonNull"
  shows "\<exists>pass. invokedLog (onmessage app e st) = invokedLog st @ pass \<and>
           list_all isUserCallback (butlast pass) \<and>
           (pass \<noteq> [] \<and> \<not> isUserCallback (last pass) \<longrightarrow>
              uncaught (onmessage app e st) =
                uncaught st @ [if e = SyntaxError then ''SyntaxError'' else ''TypeError''])"
proof -
  let ?err = "if e = SyntaxError then ''SyntaxError'' else ''TypeError''"
  let ?f = "\<lambda>k callback s. invokeMessage callback (app k) e
                              (s\<lparr>invokedLog := invokedLog s @ [callback]\<rparr>)"
  define I where "I = (\<lambda>(j :: nat) (s :: client). uncaught s = uncaught st \<and>
      (\<exists>pass. invokedLog s = invokedLog st @ pass \<and> list_all isUserCallback pass))"
  define R where "R = (\<lambda>s :: client. \<exists>pass. invokedLog s = invokedLog st @ pass \<and>
           list_all isUserCallback (butlast pass) \<and>
           (pass \<noteq> [] \<and> \<not> isUserCallback (last pass) \<longrightarrow> uncaught s = uncaught st @ [?err]))"
  have "R (forEach onMessageCallbacks ?f (length (onMessageCallbacks st)) 0 st)"
  proof (rule forEach_rule [where I = I and R = R])
    show "I 0 st" by (simp add: I_def)
  next
    fix j s s'
    assume I: "I j s" and r: "?f j (onMessageCallbacks s ! j) s = (None, s')"
    let ?cb = "onMessageCallbacks s ! j"
    obtain pass where pass: "invokedLog s = invokedLog st @ pass" "list_all isUserCallback pass"
      using I by (auto simp: I_def)
    have u: "isUserCallback ?cb"
      using r by (simp add: invokeMessage_undecodable [OF e] split: if_splits)
    then have s': "s' = snd (runApp (app j) (s\<lparr>invokedLog := invokedLog s @ [?cb]\<rparr>))"
      using r by (simp add: invokeMessage_undecodable [OF e])
    have "invokedLog s' = invokedLog st @ (pass @ [?cb])" "uncaught s' = uncaught st"
      using pass I unfolding s' by (simp_all add: I_def)
    then show "I (Suc j) s'" using pass(2) u unfolding I_def by force
  next
    fix j s s' err
    assume I: "I j s" and r: "?f j (onMessageCallbacks s ! j) s = (Some err, s')"
    let ?cb = "onMessageCallbacks s ! j"
    obtain pass where pass: "invokedLog s = invokedLog st @ pass" "list_all isUserCallback pass"
      using I by (auto simp: I_def)
    have log: "invokedLog s' = invokedLog st @ (pass @ [?cb])"
      using r pass by (auto simp: invokeMessage_undecodable [OF e] prod_eq_iff split: if_splits)
    have unc: "\<not> isUserCallback ?cb \<Longrightarrow> uncaught s' = uncaught st \<and> err = ?err"
      using r I by (auto simp: invokeMessage_undecodable [OF e] I_def)
    show "R (s'\<lparr>uncaught := uncaught s' @ [err]\<rparr>)"
      unfolding R_def
    proof (intro exI [of _ "pass @ [?cb]"] conjI impI)
      show "invokedLog (s'\<lparr>uncaught := uncaught s' @ [err]\<rparr>) = invokedLog st @ pass @ [?cb]"
        using log by simp
      show "list_all isUserCallback (butlast (pass @ [?cb]))" using pass(2) by simp
      show "uncaught (s'\<lparr>uncaught := uncaught s' @ [err]\<rparr>) = uncaught st @ [?err]"
        if "pass @ [?cb] \<noteq> [] \<and> \<not> isUserCallback (last (pass @ [?cb]))"
        using that unc by simp
    qed
  next
    fix j s
    assume "I j s"
    then show "I (Suc j) s" by (simp add: I_def)
  next
    fix s
    assume "I (0 + length (onMessageCallbacks st)) s"
    then obtain pass where pass: "invokedLog s = invokedLog st @ pass"
      "list_all isUserCallback pass"
      by (auto simp: I_def)
    have "list_all isUserCallback (butlast pass)"
      using pass(2) by (auto simp: list_all_iff dest: in_set_butlastD)
    moreover have "pass \<noteq> [] \<Longrightarrow> isUserCallback (last pass)"
      using pass(2) by (auto simp: list_all_iff)
    ultimately show "R s" using pass(1) unfolding R_def by blast
  qed
  then show ?thesis by (simp add: R_def onmessage_def)
qed

text \<open>
  When the application code ahead of the first listener of the client returns and
  unregisters no message callback, the pass reaches that listener.
\<close>

lemma onmessage_undecodable:
  assumes e: "e = SyntaxError \<or> e = JsonNull"
    and calm: "\<forall>k < length (takeWhile isUserCallback (onMessageCallbacks st)). calm (app k)"
  shows "invokedLog (onmessage app e st) =
           invokedLog st @ takeWhile isUserCallback (onMessageCallbacks st) @
             take 1 (dropWhile isUserCallback (onMessageCallbacks st)) \<and>
         uncaught (onmessage app e st) =
           uncaught st @
             (if dropWhile isUserCallback (onMessageCallbacks st) = [] then []
              else [if e = SyntaxError then ''SyntaxError'' else ''TypeError''])"
proof -
  let ?err = "if e = SyntaxError then ''SyntaxError'' else ''TypeError''"
  let ?reg0 = "onMessageCallbacks st"
  let ?q = "length (takeWhile isUserCallback ?reg0)"
  let ?f = "\<lambda>k callback s. invokeMessage callback (app k) e
                              (s\<lparr>invokedLog := invokedLog s @ [callback]\<rparr>)"
  have tw: "take ?q ?reg0 = takeWhile isUserCallback ?reg0"
    by (rule takeWhile_eq_take [symmetric])
  have dw: "drop ?q ?reg0 = dropWhile isUserCallback ?reg0"
    by (rule dropWhile_eq_drop [symmetric])
  have ql: "?q \<le> length ?reg0" by (rule length_takeWhile_le)
  have user: "isUserCallback (?reg0 ! j)" if "j < ?q" for j
    using that by (metis nth_mem set_takeWhileD takeWhile_nth)
  have client: "\<not> isUserCallback (?reg0 ! ?q)" if "?q < length ?reg0"
    using that by (rule nth_length_takeWhile)
  define I where "I = (\<lambda>j (s :: client). j \<le> ?q \<and>
      (\<exists>extra. onMessageCallbacks s = ?reg0 @ extra) \<and>
      invokedLog s = invokedLog st @ take j ?reg0 \<and> uncaught s = uncaught st)"
  define R where "R = (\<lambda>s :: client.
      invokedLog s = invokedLog st @ take ?q ?reg0 @ take 1 (drop ?q ?reg0) \<and>
      uncaught s = uncaught st @ (if drop ?q ?reg0 = [] then [] else [?err]))"
  have "R (forEach onMessageCallbacks ?f (length ?reg0) 0 st)"
  proof (rule forEach_rule [where I = I and R = R])
    show "I 0 st" by (simp add: I_def)
  next
    fix j s s'
    assume I: "I j s" and j: "j < 0 + length ?reg0"
      and r: "?f j (onMessageCallbacks s ! j) s = (None, s')"
    obtain extra where extra: "onMessageCallbacks s = ?reg0 @ extra" using I by (auto simp: I_def)
    have nth: "onMessageCallbacks s ! j = ?reg0 ! j" using extra j by (simp add: nth_append)
    have u: "isUserCallback (?reg0 ! j)"
      using r unfolding nth by (simp add: invokeMessage_undecodable [OF e] split: if_splits)
    have jq: "j < ?q" using I client u j by (cases "j = ?q") (auto simp: I_def)
    have s': "s' = snd (runApp (app j) (s\<lparr>invokedLog := invokedLog s @ [?reg0 ! j]\<rparr>))"
      using r u unfolding nth by (simp add: invokeMessage_undecodable [OF e])
    have "calm (app j)" using calm jq by simp
    moreover obtain x where "runApp (app j) (s\<lparr>invokedLog := invokedLog s @ [?reg0 ! j]\<rparr>) = (x, s')"
      using s' by (metis prod.collapse)
    ultimately obtain e2 where "onMessageCallbacks s' = onMessageCallbacks s @ e2"
      using runApp_extends [of "app j" "s\<lparr>invokedLog := invokedLog s @ [?reg0 ! j]\<rparr>" x s']
      by auto
    then have "\<exists>extra'. onMessageCallbacks s' = ?reg0 @ extra'" using extra by simp
    moreover have "invokedLog s' = invokedLog st @ take (Suc j) ?reg0"
      using I j unfolding s' by (simp add: I_def take_Suc_conv_app_nth)
    moreover have "uncaught s' = uncaught st" using I unfolding s' by (simp add: I_def)
    ultimately show "I (Suc j) s'" using jq by (simp add: I_def)
  next
    fix j s s' err
    assume I: "I j s" and j: "j < 0 + length ?reg0"
      and r: "?f j (onMessageCallbacks s ! j) s = (Some err, s')"
    obtain extra where extra: "onMessageCallbacks s = ?reg0 @ extra" using I by (auto simp: I_def)
    have nth: "onMessageCallbacks s ! j = ?reg0 ! j" using extra j by (simp add: nth_append)
    have jq: "j = ?q"
    proof (rule ccontr)
      assume "j \<noteq> ?q"
      then have lt: "j < ?q" using I by (simp add: I_def)
      then have "calm (app j)" using calm by simp
      then show False
        using r user [OF lt] unfolding nth
        by (simp add: invokeMessage_undecodable [OF e] runApp_def calm_def)
    qed
    have c: "\<not> isUserCallback (?reg0 ! ?q)" using client j jq by simp
    have r': "?f ?q (?reg0 ! ?q) s = (Some err, s')" using r nth jq by simp
    have s': "s' = s\<lparr>invokedLog := invokedLog s @ [?reg0 ! ?q]\<rparr>" and err: "err = ?err"
      using r' c by (auto simp: invokeMessage_undecodable [OF e])
    have dr: "drop ?q ?reg0 = ?reg0 ! ?q # drop (Suc ?q) ?reg0"
      using j jq by (simp add: Cons_nth_drop_Suc)
    show "R (s'\<lparr>uncaught := uncaught s' @ [err]\<rparr>)"
      using I unfolding R_def s' err jq dr by (simp add: I_def)
  next
    fix j s
    assume I: "I j s" and j: "j < 0 + length ?reg0" "\<not> j < length (onMessageCallbacks s)"
    then show "I (Suc j) s" by (auto simp: I_def)
  next
    fix s
    assume "I (0 + length ?reg0) s"
    then have "?q = length ?reg0" "invokedLog s = invokedLog st @ ?reg0" "uncaught s = uncaught st"
      using ql by (auto simp: I_def)
    then show "R s" by (simp add: R_def)
  qed
  then show ?thesis by (simp add: R_def onmessage_def tw dw)
qed

section \<open>A subscribe request that fails\<close>

lemma runApp_quiet [simp]: "runApp (quiet k) st = (None, st)"
  by (simp add: runApp_def quiet_def)

lemma calm_quiet [simp]: "calm (quiet k)"
  by (simp add: calm_def quiet_def)

lemma onmessage_quiet:
  "onMessageCallbacks (onmessage quiet e st) = onMessageCallbacks st \<and>
   subscriptions (onmessage quiet e st) = subscriptions st"
  unfolding onmessage_def
proof (rule forEach_preserves
         [of "\<lambda>s. onMessageCallbacks s = onMessageCallbacks st \<and>
                   subscriptions s = subscriptions st"])
  fix j and s :: client
  assume P: "onMessageCallbacks s = onMessageCallbacks st \<and> subscriptions s = subscriptions st"
  let ?cb = "onMessageCallbacks s ! j"
  let ?s' = "snd (invokeMessage ?cb (quiet j) e (s\<lparr>invokedLog := invokedLog s @ [?cb]\<rparr>))"
  show "onMessageCallbacks ?s' = onMessageCallbacks st \<and> subscriptions ?s' = subscriptions st"
    using P by (cases ?cb; cases e) (simp_all add: subscribeListener_def)
qed simp_all

lemma socketIsOpen_reachable:
  assumes c: "conn_inv st" and o: "socketIsOpen st"
  obtains s where "sockets st = [s]" "readyState s = OPEN" "socket_field st = Some 0"
proof -
  have f: "socket_field st = Some 0" and l: "length (sockets st) = 1"
    using c o by (auto simp: conn_inv_def socketIsOpen_def split: option.splits)
  then obtain s where s: "sockets st = [s]" by (auto elim!: length1E)
  then have "readyState s = OPEN" using o f by (simp add: socketIsOpen_def)
  then show ?thesis using that s f by blast
qed

lemma failed_subscribe_round_trip:
  assumes reach: "st0 = run (init env) acts" and "open": "socketIsOpen st0" and e: "e \<noteq> []"
    and reply: "reply = \<lparr>messageType = Some ''client_response'',
                          clientMessage = Some (''subscribe -e '' @ join S),
                          data = d, error = Some e\<rparr>"
  shows "onMessageCallbacks
           (run st0 [Call (SubscribeMany S), ResumeSend (nextId st0 + 1),
                     SocketMessage 0 (Envelope reply) quiet, ResumeSend (nextId st0 + 1),
                     ResumeSubscribe (nextId st0)])
           = onMessageCallbacks st0 \<and>
         subscriptions
           (run st0 [Call (SubscribeMany S), ResumeSend (nextId st0 + 1),
                     SocketMessage 0 (Envelope reply) quiet, ResumeSend (nextId st0 + 1),
                     ResumeSubscribe (nextId st0)]) (nextId st0)
           = Some (S, SubscribeRejected (errorReason (''subscribe -e '' @ join S) e))"
proof -
  let ?n = "nextId st0"
  let ?msg = "''subscribe -e '' @ join S"
  let ?RL = "ReplyListener (?n + 1) ?msg"
  have inv0: "wm_inv st0" using reach wm_inv_reachable by simp
  then have c0: "conn_inv st0" and r0: "reply_inv st0" by (simp_all add: wm_inv_def)
  obtain s0 where s0: "sockets st0 = [s0]" "readyState s0 = OPEN" "socket_field st0 = Some 0"
    using socketIsOpen_reachable [OF c0 "open"] .
  have fresh: "?RL \<notin> set (onMessageCallbacks st0)"
  proof
    assume "?RL \<in> set (onMessageCallbacks st0)"
    then have "callShape st0 (?n + 1) = Some (?msg, Listening)"
      using reply_inv_listener [OF r0] by simp
    then obtain call where "sends st0 (?n + 1) = Some call" by (auto simp: callShape_def)
    then show False using reply_inv_fresh [OF r0] by fastforce
  qed
  define st1 where "st1 = step (Call (SubscribeMany S)) st0"
  define st2 where "st2 = step (ResumeSend (?n + 1)) st1"
  define st3 where "st3 = step (SocketMessage 0 (Envelope reply) quiet) st2"
  define st4 where "st4 = step (ResumeSend (?n + 1)) st3"
  define st5 where "st5 = step (ResumeSubscribe ?n) st4"
  have run5: "run st0 [Call (SubscribeMany S), ResumeSend (?n + 1),
                      SocketMessage 0 (Envelope reply) quiet,
                      ResumeSend (?n + 1), ResumeSubscribe ?n] = st5"
    by (simp add: run_def st1_def st2_def st3_def st4_def st5_def)
  have k1: "connects st1 (?n + 2) = Some ConnectResolved"
    using s0 "open"
    by (simp add: st1_def subscribeMany_start_def sendAndWaitReply_start_def Let_def
          connect_start_def waitForConnection_def socketIsOpen_def)
  have f1: "onMessageCallbacks st1 = onMessageCallbacks st0" "sockets st1 = [s0]"
    "socket_field st1 = Some 0"
    "sends st1 (?n + 1) = Some \<lparr>message = ?msg, phase = AwaitConnect (?n + 2), inner = Pending\<rparr>"
    "subscriptions st1 ?n = Some (S, AwaitSubscribeReply (?n + 1))"
    using s0 by (simp_all add: st1_def)
  have st2: "st2 = st1\<lparr>sockets := [socketSend ?msg s0],
                         onMessageCallbacks := onMessageCallbacks st0 @ [?RL],
                         sends := (sends st1)(?n + 1 \<mapsto>
                           \<lparr>message = ?msg, phase = Listening, inner = Pending\<rparr>)\<rparr>"
    using k1 f1 by (simp add: st2_def send_resume_def registerCallback_def)
  have r2: "reply_inv st2"
  proof -
    have "st2 = run st0 [Call (SubscribeMany S), ResumeSend (?n + 1)]"
      by (simp add: run_def st1_def st2_def)
    then have "st2 = run (init env) (acts @ [Call (SubscribeMany S), ResumeSend (?n + 1)])"
      unfolding run_append reach .
    then show ?thesis using wm_inv_reachable by (simp add: wm_inv_def)
  qed
  have s2: "sends st2 (?n + 1) = Some \<lparr>message = ?msg, phase = Listening, inner = Pending\<rparr>"
    by (simp add: st2)
  have st3: "st3 = onmessage quiet (Envelope reply) st2"
    using s0 by (simp add: st3_def st2 socketMessage_def socketSend_def)
  have s3: "sends st3 (?n + 1)
              = Some \<lparr>message = ?msg, phase = Listening, inner = Rejected (errorReason ?msg e)\<rparr>"
    unfolding st3 using onmessage_settles [OF r2 s2, of reply quiet] e reply
    by (simp add: replyOutcome_def)
  have f3: "onMessageCallbacks st3 = onMessageCallbacks st0 @ [?RL]"
    "subscriptions st3 ?n = Some (S, AwaitSubscribeReply (?n + 1))"
    using f1 onmessage_quiet [of "Envelope reply" st2] by (simp_all add: st3 st2)
  have st4: "st4 = st3\<lparr>onMessageCallbacks := sweep ?RL (onMessageCallbacks st0 @ [?RL]),
                         sends := (sends st3)(?n + 1 \<mapsto>
                           \<lparr>message = ?msg, phase = Finalized,
                              inner = Rejected (errorReason ?msg e)\<rparr>)\<rparr>"
    using s3 f3 by (simp add: st4_def send_resume_def unregisterCallback_sweep)
  have reg4: "onMessageCallbacks st4 = onMessageCallbacks st0"
    using sweep_once [OF fresh, of "[]"] by (simp add: st4)
  have ret4: "returned st4 (?n + 1) = Rejected (errorReason ?msg e)"
    by (simp add: st4 returned_def)
  have sub4: "subscriptions st4 ?n = Some (S, AwaitSubscribeReply (?n + 1))"
    using f3 by (simp add: st4)
  have "onMessageCallbacks st5 = onMessageCallbacks st0 \<and>
        subscriptions st5 ?n = Some (S, SubscribeRejected (errorReason ?msg e))"
    using reg4 ret4 sub4 by (simp add: st5_def subscribe_resume_def)
  then show ?thesis unfolding run5 .
qed


lemmas eval_simps =
  run_def init_def op_defs event_defs onopen_def onmessage_def onclose_def onerror_def
  runApp_def quiet_def registerCallback_def unregisterCallback_sweep Let_def socketSend_def
  socketIsOpen_def closeSocket_def settle_def replyListener_def subscribeListener_def
  isReplyMessage_def isSubscribedEvent_def eventType_def truthy_def errorReason_def
  returned_def sendQuery_def runCommand_def invocations_def streamOpen_def calm_def
  calmOpen_def ahead_def

section \<open>Claims about the request correlator\<close>




text \<open>
  C5, as stated, at a concrete input. The reply to a pending command has its error field
  set, to the empty text; the code tests \<^verbatim>\<open>serverMessage.error\<close> for truth, and the call
  resolves.
\<close>

theorem error_reply_counterexample:
  "let st = run (init WsModule)
              [Call (SendAndWaitReply (runCommand ''close'' (Some (ContainerId ''123'')))),
               ResumeCreateSocket 0, ResumeConnect 1, SocketOpen 0 quiet, ResumeConnect 1,
               ResumeSend 0];
       m = \<lparr>messageType = Some ''client_response'',
             clientMessage = Some (runCommand ''close'' (Some (ContainerId ''123''))),
             data = None, error = Some []\<rparr>;
       st' = run st [SocketMessage 0 (Envelope m) quiet, ResumeSend 0]
   in sends st 0 = Some \<lparr>message = runCommand ''close'' (Some (ContainerId ''123'')),
                          phase = Listening, inner = Pending\<rparr> \<and>
      error m \<noteq> None \<and>
      returned st' 0 = Fulfilled None"
  unfolding Let_def by (intro conjI) (simp_all add: eval_simps)

text \<open>
  C5, amended. In a state that the client can reach, let call \<open>c\<close> be pending: sent and not
  settled. Let an envelope arrive with message type \<^verbatim>\<open>client_response\<close> and the text of the
  call as its client message, and let the application code called ahead of the listener of
  the call, in the pass over the message callbacks, return and unregister no message
  callback. When the error of the envelope is a text that is not empty, the call rejects
  and does not resolve, and the reason holds both the request text and the error text of
  the server; when the error is missing or empty, the call resolves with the payload.
\<close>

theorem error_reply_rejects:
  assumes "st = run (init env) acts"
    and "sends st c = Some call" and "phase call = Listening" and "inner call = Pending"
    and "messageType m = Some ''client_response''" and "clientMessage m = Some (message call)"
    and "\<forall>k < ahead (ReplyListener c (message call)) (onMessageCallbacks st). calm (app k)"
  shows "returned (send_resume c (onmessage app (Envelope m) st)) c
           = (case error m of
                None \<Rightarrow> Fulfilled (data m)
              | Some e \<Rightarrow> if e = [] then Fulfilled (data m)
                          else Rejected (errorReason (message call) e)) \<and>
         (\<forall>e. error m = Some e \<and> e \<noteq> [] \<longrightarrow>
            (\<forall>d. returned (send_resume c (onmessage app (Envelope m) st)) c \<noteq> Fulfilled d) \<and>
            (\<exists>pre mid. errorReason (message call) e = pre @ message call @ mid @ e))"
proof -
  have inv: "reply_inv st" using assms(1) wm_inv_reachable [of env acts] by (simp add: wm_inv_def)
  have "sends (onmessage app (Envelope m) st) c
          = Some (call\<lparr>inner := replyOutcome m (message call)\<rparr>)"
    using onmessage_settles [OF inv assms(2-7)] .
  then have "returned (send_resume c (onmessage app (Envelope m) st)) c
          = replyOutcome m (message call)"
    using assms(3) send_resume_settled [of _ c "call\<lparr>inner := replyOutcome m (message call)\<rparr>"]
      replyOutcome_settled [of m "message call"]
    by simp
  then show ?thesis using errorReason_includes by (auto simp: replyOutcome_def)
qed

theorem error_reply_rejects_witness:
  "let st = run (init WsModule)
              [Call (OnMessage 5),
               Call (SendAndWaitReply (runCommand ''close'' (Some (ContainerId ''123'')))),
               ResumeCreateSocket 0, ResumeConnect 1, SocketOpen 0 quiet, ResumeConnect 1,
               ResumeSend 0];
       call = \<lparr>message = runCommand ''close'' (Some (ContainerId ''123'')), phase = Listening,
                inner = Pending\<rparr>;
       m = \<lparr>messageType = Some ''client_response'',
             clientMessage = Some (runCommand ''close'' (Some (ContainerId ''123''))),
             data = None, error = Some ''no such container''\<rparr>;
       app = quiet(0 := Reaction [OnMessage 6, CloseConnection] False)
   in sends st 0 = Some call \<and>
      onMessageCallbacks st = [UserMessageCallback 5, ReplyListener 0 (message call)] \<and>
      returned (send_resume 0 (onmessage app (Envelope m) st)) 0
        = Rejected (errorReason (runCommand ''close'' (Some (ContainerId ''123'')))
                      ''no such container'')"
proof -
  let ?st = "run (init WsModule)
              [Call (OnMessage 5),
               Call (SendAndWaitReply (runCommand ''close'' (Some (ContainerId ''123'')))),
               ResumeCreateSocket 0, ResumeConnect 1, SocketOpen 0 quiet, ResumeConnect 1,
               ResumeSend 0]"
  let ?call = "\<lparr>message = runCommand ''close'' (Some (ContainerId ''123'')), phase = Listening,
                 inner = Pending\<rparr>"
  let ?m = "\<lparr>messageType = Some ''client_response'',
              clientMessage = Some (runCommand ''close'' (Some (ContainerId ''123''))),
              data = None, error = Some ''no such container''\<rparr>"
  let ?app = "quiet(0 := Reaction [OnMessage 6, CloseConnection] False)"
  have c: "sends ?st 0 = Some ?call" by (simp add: eval_simps)
  have reg: "onMessageCallbacks ?st = [UserMessageCallback 5, ReplyListener 0 (message ?call)]"
    by (simp add: eval_simps)
  have calm: "\<forall>k < ahead (ReplyListener 0 (message ?call)) (onMessageCallbacks ?st).
                calm (?app k)"
    unfolding reg by (simp add: ahead_def calm_def)
  show ?thesis
    unfolding Let_def
    using error_reply_rejects [where m = ?m and call = ?call and app = ?app,
            OF refl c _ _ _ _ calm] c reg
    by simp
qed


section \<open>Claims about the connection manager\<close>




text \<open>
  C10. \<^verbatim>\<open>closeConnection()\<close> leaves the fields \<^verbatim>\<open>_socket\<close> and \<^verbatim>\<open>_createSocketPromise\<close> as
  they are, and in every run of a client at most one socket is ever created and
  \<^verbatim>\<open>_createSocket\<close> is invoked at most once. When the socket field is set, a
  \<^verbatim>\<open>connect()\<close> after \<^verbatim>\<open>closeConnection()\<close> creates no socket and no promise: it
  registers a connect callback on the socket that was closed and waits, and whatever
  happens afterwards, it is still waiting, the client still has that one socket, and the
  stream is not open.
\<close>

theorem closed_socket_is_reused:
  assumes "st = run (init env) acts"
  shows "length (sockets st) \<le> 1 \<and> length (createSocketCalls st) \<le> 1 \<and>
         socket_field (closeConnection st) = socket_field st \<and>
         createSocketPromise (closeConnection st) = createSocketPromise st \<and>
         (socket_field st \<noteq> None \<longrightarrow>
            sockets (step (Call Connect) (closeConnection st)) = sockets (closeConnection st) \<and>
            createSocketCalls (step (Call Connect) (closeConnection st)) = createSocketCalls st \<and>
            (\<forall>acts'. connects (run (step (Call Connect) (closeConnection st)) acts') (nextId st)
                        = Some AwaitOpen \<and>
                      length (sockets (run (step (Call Connect) (closeConnection st)) acts')) = 1 \<and>
                      \<not> streamOpen (run (step (Call Connect) (closeConnection st)) acts')))"
proof -
  have c: "conn_inv st" using assms wm_inv_reachable [of env acts] by (simp add: wm_inv_def)
  have forever: "connects (run (step (Call Connect) (closeConnection st)) acts') (nextId st)
                        = Some AwaitOpen \<and>
                      length (sockets (run (step (Call Connect) (closeConnection st)) acts')) = 1 \<and>
                      \<not> streamOpen (run (step (Call Connect) (closeConnection st)) acts')"
    if "socket_field st \<noteq> None" for acts'
  proof -
    have "never_opens (nextId st) (run (step (Call Connect) (closeConnection st)) acts')"
      using close_then_connect [OF c that] never_opens_run by blast
    then show ?thesis by (auto simp: never_opens_def streamOpen_def)
  qed
  show ?thesis
    using conn_inv_lengths [OF c] close_then_connect [OF c] forever by simp
qed

theorem closed_socket_is_reused_witness:
  "let st = run (init WsModule)
              [Call Connect, ResumeCreateSocket 0, ResumeConnect 0, SocketOpen 0 quiet,
               ResumeConnect 0];
       st' = step (Call Connect) (closeConnection st);
       later = [SocketClose 0 (quiet(0 := Reaction [Connect] False)), ResumeConnect 1,
                SocketOpen 0 quiet, Call Connect, ResumeConnect 1]
   in socket_field st = Some 0 \<and> nextId st = 1 \<and> length (sockets st) = 1 \<and>
      sockets st' = sockets (closeConnection st) \<and>
      createSocketCalls st' = createSocketCalls st \<and>
      connects (run st' later) 1 = Some AwaitOpen \<and>
      length (sockets (run st' later)) = 1"
proof -
  let ?st = "run (init WsModule)
              [Call Connect, ResumeCreateSocket 0, ResumeConnect 0, SocketOpen 0 quiet,
               ResumeConnect 0]"
  have f: "socket_field ?st = Some 0" and n: "nextId ?st = 1" and l: "length (sockets ?st) = 1"
    by (simp_all add: eval_simps)
  show ?thesis
    unfolding Let_def
    using closed_socket_is_reused [OF refl, of WsModule
            "[Call Connect, ResumeCreateSocket 0, ResumeConnect 0, SocketOpen 0 quiet,
              ResumeConnect 0]"]
      f n l
    by simp
qed


section \<open>Claims about the subscription multiplexer\<close>




text \<open>
  C3. In a state that the client can reach, let subscription \<open>s\<close> be active. Invoking its
  capability unregisters the standing listener before anything is awaited: when the
  capability suspends, no listener of \<open>s\<close> is registered, while the unsubscribe request (made
  when the subscribe reply had data) has only been started: nothing was sent for it yet and
  its promise is pending.
  Whatever happens afterwards, arrivals of subscribed events included, and whatever the
  callbacks of the application do, the handler is not called again through this
  subscription.
\<close>

theorem unlisten_stops_delivery:
  assumes "st = run (init env) acts"
    and "subscriptions st s = Some (S, SubscribeActive r)"
  shows "(\<forall>S'. SubscribeListener s S' \<notin> set (onMessageCallbacks (unlisten s st))) \<and>
         (\<forall>d. r = Some d \<longrightarrow>
                returned (unlisten s st) (nextId st) = Pending \<and>
                sends (unlisten s st) (nextId st)
                  = Some \<lparr>message = ''unsubscribe '' @
                                      (case map_of d ''subscriptionId'' of
                                         None \<Rightarrow> ''undefined'' | Some i \<Rightarrow> i),
                            phase = AwaitConnect (nextId st + 1), inner = Pending\<rparr> \<and>
                sockets (unlisten s st) = sockets st) \<and>
         (\<forall>acts'. invocations s (run (unlisten s st) acts') = invocations s st)"
proof -
  have inv: "sub_inv st" using assms(1) wm_inv_reachable [of env acts] by (simp add: wm_inv_def)
  have td: "torn_down s (unlisten s st)" using unlisten_torn_down [OF inv assms(2)] .
  have same: "invocations s (unlisten s st) = invocations s st"
    using assms(2) by (cases r) (simp_all add: unlisten_def invocations_def)
  have pending: "r = Some d \<Longrightarrow>
                returned (unlisten s st) (nextId st) = Pending \<and>
                sends (unlisten s st) (nextId st)
                  = Some \<lparr>message = ''unsubscribe '' @
                                      (case map_of d ''subscriptionId'' of
                                         None \<Rightarrow> ''undefined'' | Some i \<Rightarrow> i),
                            phase = AwaitConnect (nextId st + 1), inner = Pending\<rparr> \<and>
                sockets (unlisten s st) = sockets st" for d
    using assms(2) by (simp add: unlisten_def returned_def)
  show ?thesis using td same pending invocations_run [OF td] by (auto simp: torn_down_def)
qed

theorem unlisten_stops_delivery_witness:
  "let st = run (init BuiltinWebSocket)
              [Call (SubscribeMany [''focus_changed'']),
               ResumeCreateSocket 0, ResumeConnect 2, SocketOpen 0 quiet, ResumeConnect 2,
               ResumeSend 1,
               SocketMessage 0 (Envelope \<lparr>messageType = Some ''client_response'',
                 clientMessage = Some ''subscribe -e focus_changed'',
                 data = Some [(''subscriptionId'', ''abc'')], error = None\<rparr>) quiet,
               ResumeSend 1, ResumeSubscribe 0];
       x = Envelope \<lparr>messageType = Some ''event_subscription'', clientMessage = None,
                      data = Some [(''type'', ''focus_changed'')], error = None\<rparr>
   in subscriptions st 0
        = Some ([''focus_changed''], SubscribeActive (Some [(''subscriptionId'', ''abc'')])) \<and>
      invocations 0 (run st [SocketMessage 0 x quiet]) = [Some [(''type'', ''focus_changed'')]] \<and>
      onMessageCallbacks (unlisten 0 st) = [] \<and>
      returned (unlisten 0 st) 3 = Pending \<and>
      invocations 0 (run (unlisten 0 st)
                       [SocketMessage 0 x quiet, ResumeSend 3, Call (OnMessage 7),
                        SocketMessage 0 x (quiet(0 := Reaction [Unlisten 0] False))])
        = []"
proof -
  let ?acts = "[Call (SubscribeMany [''focus_changed'']),
               ResumeCreateSocket 0, ResumeConnect 2, SocketOpen 0 quiet, ResumeConnect 2,
               ResumeSend 1,
               SocketMessage 0 (Envelope \<lparr>messageType = Some ''client_response'',
                 clientMessage = Some ''subscribe -e focus_changed'',
                 data = Some [(''subscriptionId'', ''abc'')], error = None\<rparr>) quiet,
               ResumeSend 1, ResumeSubscribe 0]"
  let ?st = "run (init BuiltinWebSocket) ?acts"
  have sub: "subscriptions ?st 0
      = Some ([''focus_changed''], SubscribeActive (Some [(''subscriptionId'', ''abc'')]))"
    by (simp add: eval_simps)
  have n: "nextId ?st = 3" by (simp add: eval_simps)
  have log: "invocations 0 ?st = []" by (simp add: eval_simps)
  have before: "invocations 0 (run ?st [SocketMessage 0 (Envelope
       \<lparr>messageType = Some ''event_subscription'', clientMessage = None,
         data = Some [(''type'', ''focus_changed'')], error = None\<rparr>) quiet])
       = [Some [(''type'', ''focus_changed'')]]"
    by (simp add: eval_simps)
  have reg: "onMessageCallbacks (unlisten 0 ?st) = []" by (simp add: eval_simps)
  show ?thesis
    unfolding Let_def
    using unlisten_stops_delivery [OF refl sub] sub n log before reg
    by simp
qed

text \<open>
  C9. In a state that the client can reach, let a call of \<^verbatim>\<open>subscribeMany\<close> await its
  subscribe request, and let the promise of that request be rejected. When the call is
  resumed it rejects with the same reason; the list of message callbacks is what it was;
  the transient listener of the request is not in it; and no standing listener of this
  call is in it, now or after anything that happens later. And for a whole call on a client
  whose stream is open, from the call of \<^verbatim>\<open>subscribeMany\<close> through the error reply to the
  rejection, with no application code calling the client in between: the list of message
  callbacks at the end is the list at the start.
\<close>

theorem failed_subscribe_installs_nothing:
  assumes "st = run (init env) acts"
    and "subscriptions st s = Some (S, AwaitSubscribeReply c)"
    and "returned st c = Rejected err"
  shows "subscriptions (subscribe_resume s st) s = Some (S, SubscribeRejected err) \<and>
         onMessageCallbacks (subscribe_resume s st) = onMessageCallbacks st \<and>
         (\<forall>m. ReplyListener c m \<notin> set (onMessageCallbacks (subscribe_resume s st))) \<and>
         (\<forall>acts' S'. SubscribeListener s S' \<notin>
                        set (onMessageCallbacks (run (subscribe_resume s st) acts'))) \<and>
         (let st0 = run (init env) acts0;
              reply = \<lparr>messageType = Some ''client_response'',
                        clientMessage = Some (''subscribe -e '' @ join S0),
                        data = d, error = Some e\<rparr>;
              st' = run st0 [Call (SubscribeMany S0), ResumeSend (nextId st0 + 1),
                             SocketMessage 0 (Envelope reply) quiet,
                             ResumeSend (nextId st0 + 1), ResumeSubscribe (nextId st0)]
          in socketIsOpen st0 \<and> e \<noteq> [] \<longrightarrow>
               onMessageCallbacks st' = onMessageCallbacks st0 \<and>
               subscriptions st' (nextId st0)
                 = Some (S0, SubscribeRejected (errorReason (''subscribe -e '' @ join S0) e)))"
proof -
  have inv: "sub_inv st" and rinv: "reply_inv st"
    using assms(1) wm_inv_reachable [of env acts] by (simp_all add: wm_inv_def)
  have td: "torn_down s (subscribe_resume s st)"
    using subscribe_rejected_torn_down [OF inv assms(2,3)] .
  have reg: "onMessageCallbacks (subscribe_resume s st) = onMessageCallbacks st"
    using assms(2,3) by (simp add: subscribe_resume_def)
  have "callShape st c \<noteq> Some (m, Listening)" for m
    using assms(3) by (auto simp: returned_def callShape_def split: option.splits if_splits)
  then have nolistener: "ReplyListener c m \<notin> set (onMessageCallbacks st)" for m
    using reply_inv_listener [OF rinv, of c m] by simp
  have "subscriptions (subscribe_resume s st) s = Some (S, SubscribeRejected err)"
    using assms(2,3) by (simp add: subscribe_resume_def)
  then show ?thesis
    using reg nolistener torn_down_run [OF td] failed_subscribe_round_trip [OF refl _ _ refl]
    by (auto simp: torn_down_def Let_def)
qed

theorem failed_subscribe_installs_nothing_witness:
  "let st0 = run (init BuiltinWebSocket)
               [Call (OnMessage 7), Call Connect, ResumeCreateSocket 0, ResumeConnect 0,
                SocketOpen 0 quiet, ResumeConnect 0];
       st = run st0
              [Call (SubscribeMany [''bogus'']), ResumeConnect 3, ResumeSend 2,
               SocketMessage 0 (Envelope \<lparr>messageType = Some ''client_response'',
                 clientMessage = Some ''subscribe -e bogus'', data = None,
                 error = Some ''unknown event''\<rparr>) quiet,
               ResumeSend 2]
   in subscriptions st 1 = Some ([''bogus''], AwaitSubscribeReply 2) \<and>
      returned st 2 = Rejected (errorReason ''subscribe -e bogus'' ''unknown event'') \<and>
      subscriptions (subscribe_resume 1 st) 1
        = Some ([''bogus''],
                SubscribeRejected (errorReason ''subscribe -e bogus'' ''unknown event'')) \<and>
      onMessageCallbacks (subscribe_resume 1 st) = onMessageCallbacks st0 \<and>
      onMessageCallbacks st0 = [UserMessageCallback 7] \<and>
      socketIsOpen st0 \<and>
      onMessageCallbacks
        (run st0 [Call (SubscribeMany [''bogus'']), ResumeSend 2,
                  SocketMessage 0 (Envelope \<lparr>messageType = Some ''client_response'',
                    clientMessage = Some ''subscribe -e bogus'', data = None,
                    error = Some ''unknown event''\<rparr>) quiet,
                  ResumeSend 2, ResumeSubscribe 1])
        = [UserMessageCallback 7]"
proof -
  let ?acts = "[Call (OnMessage 7), Call Connect, ResumeCreateSocket 0, ResumeConnect 0,
                SocketOpen 0 quiet, ResumeConnect 0] @
               [Call (SubscribeMany [''bogus'']), ResumeConnect 3, ResumeSend 2,
               SocketMessage 0 (Envelope \<lparr>messageType = Some ''client_response'',
                 clientMessage = Some ''subscribe -e bogus'', data = None,
                 error = Some ''unknown event''\<rparr>) quiet,
               ResumeSend 2]"
  let ?st = "run (init BuiltinWebSocket) ?acts"
  have sub: "subscriptions ?st 1 = Some ([''bogus''], AwaitSubscribeReply 2)"
    by (simp add: eval_simps)
  have rej: "returned ?st 2 = Rejected (errorReason ''subscribe -e bogus'' ''unknown event'')"
    by (simp add: eval_simps)
  have reg: "onMessageCallbacks ?st = [UserMessageCallback 7]"
    by (simp add: eval_simps)
  have reg0: "onMessageCallbacks (run (init BuiltinWebSocket)
               [Call (OnMessage 7), Call Connect, ResumeCreateSocket 0, ResumeConnect 0,
                SocketOpen 0 quiet, ResumeConnect 0]) = [UserMessageCallback 7]"
    by (simp add: eval_simps)
  have open0: "socketIsOpen (run (init BuiltinWebSocket)
               [Call (OnMessage 7), Call Connect, ResumeCreateSocket 0, ResumeConnect 0,
                SocketOpen 0 quiet, ResumeConnect 0])"
    by (simp add: eval_simps)
  have whole: "onMessageCallbacks
        (run (init BuiltinWebSocket)
           ([Call (OnMessage 7), Call Connect, ResumeCreateSocket 0, ResumeConnect 0,
             SocketOpen 0 quiet, ResumeConnect 0] @
            [Call (SubscribeMany [''bogus'']), ResumeSend 2,
             SocketMessage 0 (Envelope \<lparr>messageType = Some ''client_response'',
               clientMessage = Some ''subscribe -e bogus'', data = None,
               error = Some ''unknown event''\<rparr>) quiet,
             ResumeSend 2, ResumeSubscribe 1]))
        = [UserMessageCallback 7]"
    by (simp add: eval_simps)
  show ?thesis
    unfolding Let_def run_append [symmetric]
    using failed_subscribe_installs_nothing [OF refl sub rej] sub rej reg reg0 open0 whole
    by simp
qed


section \<open>Claims about failures\<close>

text \<open>
  C6, on the code. A new client in an environment without a \<^verbatim>\<open>WebSocket\<close> class sends a
  query. The creation of the socket fails and \<^verbatim>\<open>connect()\<close> rejects with the reason, but
  inside the executor of the promise: the executor ends with an exception nobody handles,
  and the promise that the query returned is pending, now and after anything that happens
  later. A client whose socket was created and then failed to connect (an error event and
  a close event, never an open event) leaves the query pending in the same way. In an
  environment without the class, no send operation of any run ever settles.
\<close>

theorem send_without_connection_stays_pending:
  "let st = run (init NoWebSocket)
              [Call (SendAndWaitReply (sendQuery ''monitors'')), ResumeCreateSocket 0,
               ResumeConnect 1, ResumeSend 0];
       st' = run (init WsModule)
               [Call (SendAndWaitReply (sendQuery ''monitors'')), ResumeCreateSocket 0,
                ResumeConnect 1, SocketError 0 quiet, SocketClose 0 quiet]
   in connects st 1 = Some (ConnectRejected wsRequired) \<and>
      sends st 0 = Some \<lparr>message = ''query monitors'', phase = ExecutorFailed wsRequired,
                          inner = Pending\<rparr> \<and>
      uncaught st = [wsRequired] \<and>
      returned st 0 = Pending \<and>
      (\<forall>acts. returned (run st acts) 0 = Pending) \<and>
      connects st' 1 = Some AwaitOpen \<and>
      sends st' 0 = Some \<lparr>message = ''query monitors'', phase = AwaitConnect 1,
                           inner = Pending\<rparr> \<and>
      (\<forall>acts. returned (run st' acts) 0 = Pending) \<and>
      (\<forall>acts c. returned (run (init NoWebSocket) acts) c = Pending)"
proof -
  let ?st = "run (init NoWebSocket)
              [Call (SendAndWaitReply (sendQuery ''monitors'')), ResumeCreateSocket 0,
               ResumeConnect 1, ResumeSend 0]"
  let ?st' = "run (init WsModule)
               [Call (SendAndWaitReply (sendQuery ''monitors'')), ResumeCreateSocket 0,
                ResumeConnect 1, SocketError 0 quiet, SocketClose 0 quiet]"
  have ef: "executor_failed 0 ?st"
    by (simp add: executor_failed_def eval_simps)
  have wf: "waits_forever 0 1 ?st'"
    by (simp add: waits_forever_def never_opens_def eval_simps)
  have "returned (run ?st acts) 0 = Pending" for acts
    using executor_failed_pending [OF executor_failed_run [OF ef]] .
  moreover have "returned (run ?st' acts) 0 = Pending" for acts
    using waits_forever_pending [OF waits_forever_run [OF wf]] .
  moreover have "returned (run (init NoWebSocket) acts) c = Pending" for acts c
    using no_transport_pending [OF no_transport_run [OF no_transport_init]] .
  moreover have "connects ?st 1 = Some (ConnectRejected wsRequired)"
    "sends ?st 0 = Some \<lparr>message = ''query monitors'', phase = ExecutorFailed wsRequired,
                          inner = Pending\<rparr>"
    "uncaught ?st = [wsRequired]"
    "returned ?st 0 = Pending"
    "connects ?st' 1 = Some AwaitOpen"
    "sends ?st' 0 = Some \<lparr>message = ''query monitors'', phase = AwaitConnect 1,
                           inner = Pending\<rparr>"
    by (simp_all add: eval_simps)
  ultimately show ?thesis unfolding Let_def by simp
qed

text \<open>
  C7, as stated, at a concrete input. A query is pending and the application has then
  registered a message callback of its own. A payload that is not valid JSON arrives: the
  listener of the query throws while parsing it, the exception leaves the handler of the
  stream, and the callback of the application, though registered, is not called.
\<close>

theorem corrupt_message_counterexample:
  "let st = run (init WsModule)
              [Call (SendAndWaitReply (sendQuery ''monitors'')), ResumeCreateSocket 0,
               ResumeConnect 1, SocketOpen 0 quiet, ResumeConnect 1, ResumeSend 0,
               Call (OnMessage 7), SocketMessage 0 SyntaxError quiet]
   in onMessageCallbacks st = [ReplyListener 0 ''query monitors'', UserMessageCallback 7] \<and>
      invokedLog st = [ReplyListener 0 ''query monitors''] \<and>
      UserMessageCallback 7 \<notin> set (invokedLog st) \<and>
      uncaught st = [''SyntaxError'']"
  unfolding Let_def by (intro conjI) (simp_all add: eval_simps)

text \<open>
  C7, amended. The client does not handle a payload that cannot be decoded (text that is
  not valid JSON, or JSON for \<^verbatim>\<open>null\<close>): every listener of the client that is called on it
  throws. So, whatever the callbacks of the application do, the pass over the message
  callbacks calls callbacks of the application and at most one listener of the client,
  which is then the last callback called for this payload, its exception leaving the
  handler of the stream; no subscription handler is called and no call is settled or
  changed. When the application code called ahead of the first listener of the client
  returns and unregisters no message callback, the callbacks called are exactly the
  callbacks of the application registered ahead of that listener and that listener, and no
  callback registered after it. What the stream does with the exception, and whether
  later messages arrive, is not the client's to say.
\<close>

theorem corrupt_message_aborts_dispatch:
  assumes "st = run (init env) acts" and "e = SyntaxError \<or> e = JsonNull"
  shows "handlerLog (onmessage app e st) = handlerLog st \<and>
         (\<forall>c call. sends st c = Some call \<longrightarrow> sends (onmessage app e st) c = Some call) \<and>
         (\<exists>pass. invokedLog (onmessage app e st) = invokedLog st @ pass \<and>
            list_all isUserCallback (butlast pass) \<and>
            (pass \<noteq> [] \<and> \<not> isUserCallback (last pass) \<longrightarrow>
               uncaught (onmessage app e st) =
                 uncaught st @ [if e = SyntaxError then ''SyntaxError'' else ''TypeError''])) \<and>
         ((\<forall>k < length (takeWhile isUserCallback (onMessageCallbacks st)). calm (app k)) \<longrightarrow>
            invokedLog (onmessage app e st) =
              invokedLog st @ takeWhile isUserCallback (onMessageCallbacks st) @
                take 1 (dropWhile isUserCallback (onMessageCallbacks st)) \<and>
            uncaught (onmessage app e st) =
              uncaught st @
                (if dropWhile isUserCallback (onMessageCallbacks st) = [] then []
                 else [if e = SyntaxError then ''SyntaxError'' else ''TypeError'']))"
proof -
  have inv: "reply_inv st" using assms(1) wm_inv_reachable [of env acts] by (simp add: wm_inv_def)
  have keep: "sends (onmessage app e st) c = Some call" if "sends st c = Some call" for c call
    by (rule onmessage_other [OF inv that]) (use assms(2) in auto)
  show ?thesis
    using handlerLog_undecodable [OF assms(2), of app st] keep
      invokedLog_undecodable [OF assms(2), of app st]
      onmessage_undecodable [OF assms(2), of st app]
    by blast
qed

theorem corrupt_message_aborts_dispatch_witness:
  "let st = run (init WsModule)
              [Call (OnMessage 5), Call (SendAndWaitReply (sendQuery ''monitors'')),
               ResumeCreateSocket 0, ResumeConnect 1, SocketOpen 0 quiet, ResumeConnect 1,
               ResumeSend 0, Call (OnMessage 7)];
       app = quiet(0 := Reaction [OnMessage 8, SendAndWaitReply (sendQuery ''windows'')] False)
   in onMessageCallbacks st
        = [UserMessageCallback 5, ReplyListener 0 ''query monitors'', UserMessageCallback 7] \<and>
      invokedLog (onmessage app JsonNull st)
        = [UserMessageCallback 5, ReplyListener 0 ''query monitors''] \<and>
      uncaught (onmessage app JsonNull st) = [''TypeError''] \<and>
      sends (onmessage app JsonNull st) 0
        = Some \<lparr>message = ''query monitors'', phase = Listening, inner = Pending\<rparr> \<and>
      handlerLog (onmessage app JsonNull st) = []"
proof -
  let ?st = "run (init WsModule)
              [Call (OnMessage 5), Call (SendAndWaitReply (sendQuery ''monitors'')),
               ResumeCreateSocket 0, ResumeConnect 1, SocketOpen 0 quiet, ResumeConnect 1,
               ResumeSend 0, Call (OnMessage 7)]"
  let ?app = "quiet(0 := Reaction [OnMessage 8, SendAndWaitReply (sendQuery ''windows'')] False)"
  have reg: "onMessageCallbacks ?st
        = [UserMessageCallback 5, ReplyListener 0 ''query monitors'', UserMessageCallback 7]"
    and log: "invokedLog ?st = []" and unc: "uncaught ?st = []" and hl: "handlerLog ?st = []"
    and call: "sends ?st 0
        = Some \<lparr>message = ''query monitors'', phase = Listening, inner = Pending\<rparr>"
    by (simp_all add: eval_simps)
  have calm: "\<forall>k < length (takeWhile isUserCallback (onMessageCallbacks ?st)). calm (?app k)"
    unfolding reg by (simp add: calm_def)
  note th = corrupt_message_aborts_dispatch [OF refl disjI2 [OF refl], where app = ?app
      and env = WsModule
      and acts = "[Call (OnMessage 5), Call (SendAndWaitReply (sendQuery ''monitors'')),
               ResumeCreateSocket 0, ResumeConnect 1, SocketOpen 0 quiet, ResumeConnect 1,
               ResumeSend 0, Call (OnMessage 7)]"]
  note frame = th [THEN conjunct1]
  note keep = th [THEN conjunct2, THEN conjunct1, THEN spec, THEN spec, THEN mp, OF call]
  note exact = th [THEN conjunct2, THEN conjunct2, THEN conjunct2, THEN mp, OF calm]
  have il: "invokedLog (onmessage ?app JsonNull ?st)
              = [UserMessageCallback 5, ReplyListener 0 ''query monitors'']"
    using exact [THEN conjunct1] unfolding reg log by simp
  have un: "uncaught (onmessage ?app JsonNull ?st) = [''TypeError'']"
    using exact [THEN conjunct2] unfolding reg unc by simp
  have h: "handlerLog (onmessage ?app JsonNull ?st) = []"
    using frame unfolding hl by simp
  show ?thesis
    unfolding Let_def using reg il un keep h by (intro conjI)
qed

section \<open>Claims about the callback registry\<close>

text \<open>
  C8, as stated, at a concrete input. The application registers callback 1, then 2, then 1
  again. The capability removes both entries of 1, not the first one only. And with 1
  registered twice in a row, the first call removes one entry and the second call removes
  the other, so the second call does have an effect.
\<close>

theorem unregister_first_only_counterexample:
  "unregisterCallback (1::nat) (registerCallback (registerCallback (registerCallback [] 1) 2) 1)
     \<noteq> remove1 1 (registerCallback (registerCallback (registerCallback [] 1) 2) 1)
   \<and> unregisterCallback (1::nat) (unregisterCallback 1 (registerCallback (registerCallback [] 1) 1))
     \<noteq> unregisterCallback 1 (registerCallback (registerCallback [] 1) 1)"
  by (simp add: registerCallback_def unregisterCallback_sweep)

text \<open>
  C8, amended. For every list, the capability never removes an entry that is not
  reference-equal to its callback, and the entries that remain keep their order. When the
  callback is in the list once (registered into a list that did not hold it, whatever was
  registered after it), the capability removes exactly that entry; a second call has no
  further effect, also on a listener registered in between, which may sit at the index the
  callback had.
\<close>

theorem unregister_registered_once:
  "filter (\<lambda>x. x \<noteq> c) (unregisterCallback c ys) = filter (\<lambda>x. x \<noteq> c) ys \<and>
   (c \<notin> set xs \<and> c \<notin> set zs \<and> other \<noteq> c \<longrightarrow>
      unregisterCallback c (registerCallback xs c @ zs) = xs @ zs \<and>
      unregisterCallback c (unregisterCallback c (registerCallback xs c @ zs)) = xs @ zs \<and>
      unregisterCallback c
        (registerCallback (unregisterCallback c (registerCallback xs c @ zs)) other)
        = registerCallback (xs @ zs) other)"
  by (auto simp: unregisterCallback_sweep registerCallback_def sweep_filter sweep_once sweep_absent)

theorem unregister_registered_once_witness:
  "unregisterCallback (1::nat) (registerCallback [2] 1 @ [3]) = [2, 3] \<and>
   unregisterCallback (1::nat) (unregisterCallback 1 (registerCallback [2] 1 @ [3])) = [2, 3] \<and>
   unregisterCallback (1::nat)
     (registerCallback (unregisterCallback 1 (registerCallback [2] 1 @ [3])) 4) = [2, 3, 4]"
  using unregister_registered_once [where c = "1::nat" and ys = "[]" and xs = "[2]" and zs = "[3]" and other = 4]
  by (simp add: registerCallback_def unregisterCallback_sweep)


end
